theory Spec2Isabelle
  imports Complex_Main "HOL-Library.Char_ord" "HOL-Library.List_Lexorder"
begin

section \<open>Errors\<close>

text \<open>
  Every exception the modelled code can raise is a value of \<open>error\<close>; a fallible
  operation returns \<open>error + 'a\<close> with \<open>Inl\<close> for the raised exception.
  \<^item> \<open>IndexError\<close>: \<^verbatim>\<open>element_str[0]\<close> on an empty string, or a list index out of range;
  \<^item> \<open>UnknownElementType c\<close>: \<^verbatim>\<open>ValueError(f"Unknown element type: {c}")\<close>;
  \<^item> \<open>CPEExponentRange\<close>: \<^verbatim>\<open>ValueError("CPE exponent n must be in the range (0, 1].")\<close>;
  \<^item> \<open>UnpackError\<close>: the \<^verbatim>\<open>ValueError\<close> of unpacking a tuple of the wrong length;
  \<^item> \<open>TypeError\<close>: arithmetic on, or unpacking of, a value of the wrong shape;
  \<^item> \<open>KeyError k\<close>: a parameter key that is not in the mapping;
  \<^item> \<open>ZeroDivisionError\<close>: division of Python numbers by zero;
  \<^item> \<open>RecursionError\<close>: the interpreter's recursion limit is exceeded;
  \<^item> \<open>NonFinite\<close>: not an exception: in the element library numpy returns an IEEE
    infinity or NaN here (with a warning), which the complex numbers of the model do not
    include;
  \<^item> \<open>BroadcastError\<close>: the \<^verbatim>\<open>ValueError\<close> of numpy arithmetic on arrays of different lengths;
  \<^item> \<open>OptimizerError msg\<close>: any exception raised inside \<^verbatim>\<open>scipy.optimize.curve_fit\<close>.
\<close>

datatype error =
    IndexError
  | UnknownElementType char
  | CPEExponentRange
  | UnpackError
  | TypeError
  | KeyError string
  | ZeroDivisionError
  | RecursionError
  | NonFinite
  | BroadcastError
  | OptimizerError string

text \<open>A list comprehension over fallible calls raises at the first failing item.\<close>

fun collect :: "(error + 'a) list \<Rightarrow> error + 'a list" where
  "collect [] = Inr []"
| "collect (Inl e # rs) = Inl e"
| "collect (Inr x # rs) = (case collect rs of Inl e \<Rightarrow> Inl e | Inr xs \<Rightarrow> Inr (x # xs))"

section \<open>Circuit elements and circuit trees\<close>

text \<open>
  One constructor per element class of \<^verbatim>\<open>elements.py\<close>; the argument is the \<^verbatim>\<open>name\<close>
  field. \<open>str_of\<close> is \<^verbatim>\<open>__str__\<close>: the one-letter tag followed by the name.
\<close>

datatype CircuitElement =
    Resistor string
  | Capacitor string
  | Inductor string
  | Warburg string
  | WarburgShort string
  | WarburgOpen string
  | CPE string

fun str_of :: "CircuitElement \<Rightarrow> string" where
  "str_of (Resistor n) = CHR ''R'' # n"
| "str_of (Capacitor n) = CHR ''C'' # n"
| "str_of (Inductor n) = CHR ''L'' # n"
| "str_of (Warburg n) = CHR ''W'' # n"
| "str_of (WarburgShort n) = CHR ''S'' # n"
| "str_of (WarburgOpen n) = CHR ''O'' # n"
| "str_of (CPE n) = CHR ''Q'' # n"

datatype CircuitNode =
    ElementNode CircuitElement
  | SeriesNode "CircuitNode list"
  | ParallelNode "CircuitNode list"

section \<open>The circuit grammar parser (parsing.py)\<close>

text \<open>
  Strings are lists of 8-bit characters read as the code points 0 to 255. \<open>isspace\<close>
  lists the code points below 256 that \<^verbatim>\<open>str.strip()\<close> removes.
\<close>

definition isspace :: "char \<Rightarrow> bool" where
  "isspace c \<longleftrightarrow> c \<in> set [CHR 0x09, CHR 0x0A, CHR 0x0B, CHR 0x0C, CHR 0x0D,
     CHR 0x1C, CHR 0x1D, CHR 0x1E, CHR 0x1F, CHR 0x20, CHR 0x85, CHR 0xA0]"

definition strip :: "string \<Rightarrow> string" where
  "strip s = rev (dropWhile isspace (rev (dropWhile isspace s)))"

text \<open>
  \<^verbatim>\<open>_split_by_operator\<close>: the loop over the characters, with the loop variables
  \<^verbatim>\<open>parts\<close>, \<^verbatim>\<open>current\<close> and \<^verbatim>\<open>depth\<close> as arguments. After the loop a non-empty
  \<^verbatim>\<open>current\<close> is appended; an empty one is not.
\<close>

fun split_loop :: "char \<Rightarrow> string \<Rightarrow> string list \<Rightarrow> string \<Rightarrow> int \<Rightarrow> string list" where
  "split_loop opr [] parts current depth =
     (if current \<noteq> [] then parts @ [strip current] else parts)"
| "split_loop opr (c # cs) parts current depth =
     (if c = CHR ''('' then split_loop opr cs parts (current @ [c]) (depth + 1)
      else if c = CHR '')'' then split_loop opr cs parts (current @ [c]) (depth - 1)
      else if c = opr \<and> depth = 0 then split_loop opr cs (parts @ [strip current]) [] depth
      else split_loop opr cs parts (current @ [c]) depth)"

definition split_by_operator :: "string \<Rightarrow> char \<Rightarrow> string list" where
  "split_by_operator s opr = split_loop opr s [] [] 0"

text \<open>
  \<^verbatim>\<open>_create_element_node\<close>: strip, read the tag \<^verbatim>\<open>element_str[0]\<close> (an \<^verbatim>\<open>IndexError\<close> on
  the empty string) and the identifier \<^verbatim>\<open>element_str[1:]\<close>, then the \<^verbatim>\<open>if\<close>/\<^verbatim>\<open>elif\<close> chain.
\<close>

definition create_element_node :: "string \<Rightarrow> error + CircuitNode" where
  "create_element_node element_str =
     (case strip element_str of
        [] \<Rightarrow> Inl IndexError
      | element_type # element_id \<Rightarrow>
          if element_type = CHR ''R'' then Inr (ElementNode (Resistor element_id))
          else if element_type = CHR ''C'' then Inr (ElementNode (Capacitor element_id))
          else if element_type = CHR ''L'' then Inr (ElementNode (Inductor element_id))
          else if element_type = CHR ''W'' then Inr (ElementNode (Warburg element_id))
          else if element_type = CHR ''Q'' then Inr (ElementNode (CPE element_id))
          else Inl (UnknownElementType element_type))"

text \<open>
  The scan of \<^verbatim>\<open>_parse_with_parentheses\<close>: index \<open>i\<close>, \<^verbatim>\<open>depth\<close>, and the positions of
  the first top-level \<^verbatim>\<open>|\<close> and \<^verbatim>\<open>-\<close>, each \<open>-1\<close> until found. It returns
  \<open>(parallel_pos, series_pos)\<close>.
\<close>

fun scan_operators :: "string \<Rightarrow> int \<Rightarrow> int \<Rightarrow> int \<Rightarrow> int \<Rightarrow> int \<times> int" where
  "scan_operators [] i depth parallel_pos series_pos = (parallel_pos, series_pos)"
| "scan_operators (c # cs) i depth parallel_pos series_pos =
     (if c = CHR ''('' then scan_operators cs (i + 1) (depth + 1) parallel_pos series_pos
      else if c = CHR '')'' then scan_operators cs (i + 1) (depth - 1) parallel_pos series_pos
      else if depth = 0 then
        (if c = CHR ''|'' \<and> parallel_pos = - 1
           then scan_operators cs (i + 1) depth i series_pos
         else if c = CHR ''-'' \<and> series_pos = - 1
           then scan_operators cs (i + 1) depth parallel_pos i
         else scan_operators cs (i + 1) depth parallel_pos series_pos)
      else scan_operators cs (i + 1) depth parallel_pos series_pos)"

definition series_node :: "(error + CircuitNode) list \<Rightarrow> error + CircuitNode" where
  "series_node rs = (case collect rs of Inl e \<Rightarrow> Inl e | Inr children \<Rightarrow> Inr (SeriesNode children))"

definition parallel_node :: "(error + CircuitNode) list \<Rightarrow> error + CircuitNode" where
  "parallel_node rs = (case collect rs of Inl e \<Rightarrow> Inl e | Inr children \<Rightarrow> Inr (ParallelNode children))"

text \<open>
  \<^verbatim>\<open>parse_circuit\<close> and \<^verbatim>\<open>_parse_with_parentheses\<close> call each other. The recursion need
  not end: for \<^verbatim>\<open>"R1)-R2"\<close> the split on \<^verbatim>\<open>-\<close> returns the string itself, and Python stops
  with a \<^verbatim>\<open>RecursionError\<close>. The first argument is the number of nested calls of
  \<^verbatim>\<open>parse_circuit\<close> still allowed (the recursion limit); at 0 the call raises.
\<close>

fun parse_circuit :: "nat \<Rightarrow> string \<Rightarrow> error + CircuitNode"
  and parse_with_parentheses :: "nat \<Rightarrow> string \<Rightarrow> error + CircuitNode" where
  "parse_circuit 0 string = Inl RecursionError"
| "parse_circuit (Suc limit) string =
     (let s = strip string in
      if CHR ''('' \<in> set s then parse_with_parentheses limit s
      else if CHR ''-'' \<in> set s then
        series_node (map (parse_circuit limit) (split_by_operator s (CHR ''-'')))
      else if CHR ''|'' \<in> set s then
        parallel_node (map (parse_circuit limit) (split_by_operator s (CHR ''|'')))
      else create_element_node s)"
| "parse_with_parentheses limit s =
     (case scan_operators s 0 0 (- 1) (- 1) of (parallel_pos, series_pos) \<Rightarrow>
        if series_pos \<noteq> - 1 then
          series_node (map (parse_circuit limit) (split_by_operator s (CHR ''-'')))
        else if parallel_pos \<noteq> - 1 then
          parallel_node (map (parse_circuit limit) (split_by_operator s (CHR ''|'')))
        else if s \<noteq> [] \<and> hd s = CHR ''('' \<and> last s = CHR '')''
          then parse_circuit limit (butlast (tl s))
        else create_element_node s)"

section \<open>Parameter mappings\<close>

text \<open>
  A parameter value is a scalar or a tuple of numbers. The numbers are reals; the
  rounding of the program's arithmetic on them is an argument of the evaluator (see
  \<open>round_double\<close> below). A parameter mapping is a Python \<^verbatim>\<open>dict\<close>
  with string keys: an association list in insertion order. \<open>setitem\<close> is
  \<^verbatim>\<open>d[k] = v\<close> (an existing key keeps its place, a new key goes to the end), \<open>getitem\<close>
  is \<^verbatim>\<open>d[k]\<close>.
\<close>

datatype pvalue = Scalar real | Tuple "real list"

type_synonym params = "(string \<times> pvalue) list"

fun setitem :: "('k \<times> 'v) list \<Rightarrow> 'k \<Rightarrow> 'v \<Rightarrow> ('k \<times> 'v) list" where
  "setitem [] k v = [(k, v)]"
| "setitem ((k', v') # d) k v = (if k' = k then (k, v) # d else (k', v') # setitem d k v)"

definition getitem :: "params \<Rightarrow> string \<Rightarrow> error + pvalue" where
  "getitem d k = (case map_of d k of None \<Rightarrow> Inl (KeyError k) | Some v \<Rightarrow> Inr v)"

text \<open>The number of slots a value takes in the flat vector, and the numbers in them.\<close>

fun arity :: "pvalue \<Rightarrow> nat" where
  "arity (Scalar x) = 1"
| "arity (Tuple xs) = length xs"

fun slots :: "pvalue \<Rightarrow> real list" where
  "slots (Scalar x) = [x]"
| "slots (Tuple xs) = xs"

section \<open>The element library (elements.py)\<close>

text \<open>
  The operations take a single frequency and Python numbers, and give the closed form
  of each element in exact arithmetic. \<open>py_div\<close> is \<^verbatim>\<open>/\<close> on Python complex numbers,
  which raises on a zero divisor. \<open>py_pow\<close> is \<^verbatim>\<open>z ** n\<close> for a complex base and a
  positive real exponent, in polar form. Where the source calls numpy on a scalar, a zero
  divisor gives an IEEE infinity or NaN instead of an exception; the model returns
  \<open>NonFinite\<close> there.
\<close>

definition py_div :: "complex \<Rightarrow> complex \<Rightarrow> error + complex" where
  "py_div a b = (if b = 0 then Inl ZeroDivisionError else Inr (a / b))"

definition py_pow :: "complex \<Rightarrow> real \<Rightarrow> complex" where
  "py_pow z n = (if z = 0 then 0 else rcis (cmod z powr n) (Arg z * n))"

definition Resistor_impedance :: "real \<Rightarrow> pvalue \<Rightarrow> error + complex" where
  "Resistor_impedance frequency v =
     (case v of Scalar R \<Rightarrow> Inr (complex_of_real R + 0 * \<i>) | Tuple xs \<Rightarrow> Inl TypeError)"

definition Capacitor_impedance :: "real \<Rightarrow> pvalue \<Rightarrow> error + complex" where
  "Capacitor_impedance frequency v =
     (case v of
        Scalar C \<Rightarrow> (let omega = 2 * pi * frequency
                     in py_div 1 (\<i> * complex_of_real omega * complex_of_real C))
      | Tuple xs \<Rightarrow> Inl TypeError)"

definition Inductor_impedance :: "real \<Rightarrow> pvalue \<Rightarrow> error + complex" where
  "Inductor_impedance frequency v =
     (case v of
        Scalar L \<Rightarrow> (let omega = 2 * pi * frequency
                     in Inr (\<i> * complex_of_real omega * complex_of_real L))
      | Tuple xs \<Rightarrow> Inl TypeError)"

text \<open>
  \<^verbatim>\<open>Warburg.impedance\<close> divides by \<^verbatim>\<open>np.sqrt(2 * np.pi * frequency)\<close>, a numpy scalar:
  NaN for a negative frequency, a zero divisor at frequency 0. (With a tuple for
  \<^verbatim>\<open>Aw\<close> numpy would broadcast to an array; the model, whose impedances are single
  complex numbers, returns \<open>TypeError\<close>.)
\<close>

definition Warburg_impedance :: "real \<Rightarrow> pvalue \<Rightarrow> error + complex" where
  "Warburg_impedance frequency v =
     (case v of
        Scalar Aw \<Rightarrow>
          if 2 * pi * frequency \<le> 0 then Inl NonFinite
          else (let real_part = complex_of_real (Aw / sqrt (2 * pi * frequency));
                    imag_part = complex_of_real Aw / (\<i> * complex_of_real (sqrt (2 * pi * frequency)))
                in Inr (real_part + imag_part))
      | Tuple xs \<Rightarrow> Inl TypeError)"

text \<open>\<^verbatim>\<open>Aw, B = params\<close> and \<^verbatim>\<open>C, n = C_n\<close>: unpacking into two names.\<close>

definition unpack2 :: "pvalue \<Rightarrow> error + real \<times> real" where
  "unpack2 v =
     (case v of
        Scalar x \<Rightarrow> Inl TypeError
      | Tuple xs \<Rightarrow> (case xs of [a, b] \<Rightarrow> Inr (a, b) | _ \<Rightarrow> Inl UnpackError))"

definition np_tanh :: "complex \<Rightarrow> error + complex" where
  "np_tanh z = (if cosh z = 0 then Inl NonFinite else Inr (tanh z))"

definition coth :: "complex \<Rightarrow> error + complex" where
  "coth x =
     (case np_tanh x of
        Inl e \<Rightarrow> Inl e
      | Inr t \<Rightarrow> if t = 0 then Inl NonFinite else Inr (1 / t))"

definition WarburgShort_impedance :: "real \<Rightarrow> pvalue \<Rightarrow> error + complex" where
  "WarburgShort_impedance frequency v =
     (case unpack2 v of
        Inl e \<Rightarrow> Inl e
      | Inr (Aw, B) \<Rightarrow>
          (let omega = 2 * pi * frequency; root = csqrt (\<i> * complex_of_real omega) in
           case np_tanh (complex_of_real B * root) of
             Inl e \<Rightarrow> Inl e
           | Inr t \<Rightarrow> if root = 0 then Inl NonFinite
                      else Inr (complex_of_real Aw * t / root)))"

definition WarburgOpen_impedance :: "real \<Rightarrow> pvalue \<Rightarrow> error + complex" where
  "WarburgOpen_impedance frequency v =
     (case unpack2 v of
        Inl e \<Rightarrow> Inl e
      | Inr (Aw, B) \<Rightarrow>
          (let omega = 2 * pi * frequency; root = csqrt (\<i> * complex_of_real omega) in
           case coth (complex_of_real B * root) of
             Inl e \<Rightarrow> Inl e
           | Inr t \<Rightarrow> if root = 0 then Inl NonFinite
                      else Inr (complex_of_real Aw * t / root)))"

text \<open>
  \<^verbatim>\<open>CPE.impedance\<close>: unpack, check the exponent, then
  \<^verbatim>\<open>1 / (C * (1j * 2 * np.pi * frequency) ** n)\<close> on Python numbers.
\<close>

definition CPE_impedance :: "real \<Rightarrow> pvalue \<Rightarrow> error + complex" where
  "CPE_impedance frequency C_n =
     (case unpack2 C_n of
        Inl e \<Rightarrow> Inl e
      | Inr (C, n) \<Rightarrow>
          if n \<le> 0 \<or> n > 1 then Inl CPEExponentRange
          else py_div 1 (complex_of_real C *
                 py_pow (\<i> * 2 * complex_of_real pi * complex_of_real frequency) n))"

fun element_impedance :: "CircuitElement \<Rightarrow> real \<Rightarrow> pvalue \<Rightarrow> error + complex" where
  "element_impedance (Resistor name) = Resistor_impedance"
| "element_impedance (Capacitor name) = Capacitor_impedance"
| "element_impedance (Inductor name) = Inductor_impedance"
| "element_impedance (Warburg name) = Warburg_impedance"
| "element_impedance (WarburgShort name) = WarburgShort_impedance"
| "element_impedance (WarburgOpen name) = WarburgOpen_impedance"
| "element_impedance (CPE name) = CPE_impedance"

section \<open>Python's floating-point arithmetic\<close>

text \<open>
  A Python float is an IEEE double: 53 significant bits, each arithmetic result rounded
  to the nearest double, ties to the even one. \<open>round_double\<close> is that rounding, with
  the precision of the doubles and no bound on the exponent: it is what the program
  computes as long as no result overflows or falls below the normal range.
  \<open>pow2 e\<close> is \<open>2\<close> to the integer power \<open>e\<close>.
\<close>

definition pow2 :: "int \<Rightarrow> real" where
  "pow2 e = (if 0 \<le> e then 2 ^ nat e else 1 / 2 ^ nat (- e))"

definition round_even :: "real \<Rightarrow> int" where
  "round_even y =
     (let f = \<lfloor>y\<rfloor>; d = y - of_int f in
      if d < 1 / 2 then f else if 1 / 2 < d then f + 1 else if even f then f else f + 1)"

definition round_double :: "real \<Rightarrow> real" where
  "round_double x =
     (if x = 0 then 0
      else (let q = pow2 (\<lfloor>log 2 \<bar>x\<bar>\<rfloor> - 52) in of_int (round_even (x / q)) * q))"

text \<open>
  The arithmetic of Python's complex numbers (a pair of floats), with the rounding as an
  argument \<open>rnd\<close>: \<open>round_double\<close> for the program, the identity for exact arithmetic.
  \<open>c_sum\<close> is \<^verbatim>\<open>a + b\<close>. \<open>c_quot\<close> is \<^verbatim>\<open>a / b\<close> as CPython computes it: it scales by the
  larger component of the divisor and raises when the divisor is zero.
\<close>

definition c_sum :: "(real \<Rightarrow> real) \<Rightarrow> complex \<Rightarrow> complex \<Rightarrow> complex" where
  "c_sum rnd a b = Complex (rnd (Re a + Re b)) (rnd (Im a + Im b))"

definition c_quot :: "(real \<Rightarrow> real) \<Rightarrow> complex \<Rightarrow> complex \<Rightarrow> error + complex" where
  "c_quot rnd a b =
     (if \<bar>Re b\<bar> \<ge> \<bar>Im b\<bar> then
        (if \<bar>Re b\<bar> = 0 then Inl ZeroDivisionError
         else
           (let ratio = rnd (Im b / Re b);
                denom = rnd (Re b + rnd (Im b * ratio))
            in Inr (Complex (rnd (rnd (Re a + rnd (Im a * ratio)) / denom))
                            (rnd (rnd (Im a - rnd (Re a * ratio)) / denom)))))
      else
        (let ratio = rnd (Re b / Im b);
             denom = rnd (rnd (Re b * ratio) + Im b)
         in Inr (Complex (rnd (rnd (rnd (Re a * ratio) + Im a) / denom))
                         (rnd (rnd (rnd (Im a * ratio) - Re a) / denom)))))"

definition round_complex :: "(real \<Rightarrow> real) \<Rightarrow> complex \<Rightarrow> complex" where
  "round_complex rnd z = Complex (rnd (Re z)) (rnd (Im z))"

section \<open>The circuit evaluator (parsing.py)\<close>

text \<open>
  \<^verbatim>\<open>sum\<close> over a generator starts from 0, adds the children from left to right and stops
  at the first exception. In a Parallel node each child's impedance is inverted as it is
  produced, and the sum of the admittances is inverted at the end (for no children the
  sum is 0). The arithmetic of the nodes is Python's, with the rounding \<open>rnd\<close>. The
  closed form of an element is evaluated in exact arithmetic and its value rounded; for a
  resistor, whose impedance is \<^verbatim>\<open>R + 0j\<close>, that is what Python computes.
\<close>

definition reciprocal :: "(real \<Rightarrow> real) \<Rightarrow> error + complex \<Rightarrow> error + complex" where
  "reciprocal rnd r = (case r of Inl e \<Rightarrow> Inl e | Inr z \<Rightarrow> c_quot rnd 1 z)"

definition sum_results :: "(real \<Rightarrow> real) \<Rightarrow> (error + complex) list \<Rightarrow> error + complex" where
  "sum_results rnd rs =
     (case collect rs of Inl e \<Rightarrow> Inl e | Inr zs \<Rightarrow> Inr (foldl (c_sum rnd) 0 zs))"

definition rounded :: "(real \<Rightarrow> real) \<Rightarrow> error + complex \<Rightarrow> error + complex" where
  "rounded rnd r = (case r of Inl e \<Rightarrow> Inl e | Inr z \<Rightarrow> Inr (round_complex rnd z))"

fun impedance :: "(real \<Rightarrow> real) \<Rightarrow> CircuitNode \<Rightarrow> real \<Rightarrow> params \<Rightarrow> error + complex" where
  "impedance rnd (ElementNode element) frequency ps =
     (case getitem ps (str_of element) of
        Inl e \<Rightarrow> Inl e
      | Inr v \<Rightarrow> rounded rnd (element_impedance element frequency v))"
| "impedance rnd (SeriesNode children) frequency ps =
     sum_results rnd (map (\<lambda>child. impedance rnd child frequency ps) children)"
| "impedance rnd (ParallelNode children) frequency ps =
     (case sum_results rnd
             (map (\<lambda>child. reciprocal rnd (impedance rnd child frequency ps)) children) of
        Inl e \<Rightarrow> Inl e
      | Inr total_admittance \<Rightarrow> c_quot rnd 1 total_admittance)"

section \<open>The parameter codec and the fitting engine (CircuitNode.fit)\<close>

text \<open>
  An upper bound is a number or \<^verbatim>\<open>np.inf\<close>. The four lists that the first loop of
  \<^verbatim>\<open>fit\<close> builds are the fields of \<open>flat\<close>.
\<close>

datatype bound = Finite real | Infinity

record flat =
  p0 :: "real list"
  lower_bounds :: "real list"
  upper_bounds :: "bound list"
  "structure" :: "(string \<times> nat) list"

definition startswith :: "string \<Rightarrow> string \<Rightarrow> bool" where
  "startswith s prefix \<longleftrightarrow> take (length prefix) s = prefix"

text \<open>One pass of the loop body \<^verbatim>\<open>for key in keys\<close>, for the value found under the key.\<close>

definition flatten_step :: "real \<Rightarrow> string \<Rightarrow> pvalue \<Rightarrow> flat \<Rightarrow> flat" where
  "flatten_step eps key val st =
     (case val of
        Tuple xs \<Rightarrow>
          (let len = length xs in
           if startswith key ''Q'' then
             st\<lparr>p0 := p0 st @ xs,
                lower_bounds := lower_bounds st @ [eps, eps],
                upper_bounds := upper_bounds st @ [Infinity, Finite 1],
                structure := structure st @ [(key, len)]\<rparr>
           else
             st\<lparr>p0 := p0 st @ xs,
                lower_bounds := lower_bounds st @ replicate len eps,
                upper_bounds := upper_bounds st @ replicate len Infinity,
                structure := structure st @ [(key, len)]\<rparr>)
      | Scalar x \<Rightarrow>
          st\<lparr>p0 := p0 st @ [x],
             lower_bounds := lower_bounds st @ [eps],
             upper_bounds := upper_bounds st @ [Infinity],
             structure := structure st @ [(key, 1)]\<rparr>)"

fun flatten_loop :: "real \<Rightarrow> params \<Rightarrow> string list \<Rightarrow> flat \<Rightarrow> error + flat" where
  "flatten_loop eps ps [] st = Inr st"
| "flatten_loop eps ps (key # keys) st =
     (case getitem ps key of
        Inl e \<Rightarrow> Inl e
      | Inr val \<Rightarrow> flatten_loop eps ps keys (flatten_step eps key val st))"

definition sorted_keys :: "params \<Rightarrow> string list" where
  "sorted_keys ps = sort (map fst ps)"

definition flatten :: "real \<Rightarrow> params \<Rightarrow> error + flat" where
  "flatten eps ps =
     flatten_loop eps ps (sorted_keys ps)
       \<lparr>p0 = [], lower_bounds = [], upper_bounds = [], structure = []\<rparr>"

text \<open>
  The loop \<^verbatim>\<open>for key, length in structure\<close>, which occurs twice in \<^verbatim>\<open>fit\<close>: in
  \<^verbatim>\<open>model_wrapper\<close> it fills a new dictionary, and after the optimisation it assigns into
  \<^verbatim>\<open>params\<close> itself. The dictionary written to is the first argument. \<^verbatim>\<open>values[idx]\<close>
  raises when out of range; the slice \<^verbatim>\<open>values[idx : idx + length]\<close> does not.
\<close>

fun rebuild_loop :: "params \<Rightarrow> (string \<times> nat) list \<Rightarrow> real list \<Rightarrow> nat \<Rightarrow> error + params" where
  "rebuild_loop d [] values idx = Inr d"
| "rebuild_loop d ((key, len) # rest) values idx =
     (if len = 1 then
        (if idx < length values
           then rebuild_loop (setitem d key (Scalar (values ! idx))) rest values (idx + 1)
         else Inl IndexError)
      else
        rebuild_loop (setitem d key (Tuple (take len (drop idx values)))) rest values (idx + len))"

text \<open>
  \<^verbatim>\<open>model_wrapper\<close>, for the array of frequencies: the impedance is evaluated at each
  frequency, and the real parts are followed by the imaginary parts. The numbers of the
  fit are exact reals.
  (numpy evaluates the whole array at once; where a single frequency raises a division
  by zero, numpy yields an infinity or NaN, which the model does not represent.)
\<close>

definition model_wrapper ::
  "(string \<times> nat) list \<Rightarrow> CircuitNode \<Rightarrow> real list \<Rightarrow> real list \<Rightarrow> error + real list" where
  "model_wrapper struct node frequency param_values =
     (case rebuild_loop [] struct param_values 0 of
        Inl e \<Rightarrow> Inl e
      | Inr param_dict \<Rightarrow>
          (case collect (map (\<lambda>f. impedance (\<lambda>x. x) node f param_dict) frequency) of
             Inl e \<Rightarrow> Inl e
           | Inr Z_model \<Rightarrow> Inr (map Re Z_model @ map Im Z_model)))"

text \<open>
  A score is a numpy double: a number, or one of the values \<^verbatim>\<open>-inf\<close> and \<^verbatim>\<open>nan\<close>.
  \<^verbatim>\<open>r_squared = 1 - ss_res / ss_tot\<close> raises nothing for \<^verbatim>\<open>ss_tot = 0\<close>: numpy returns
  \<^verbatim>\<open>nan\<close> for \<^verbatim>\<open>0 / 0\<close> and \<^verbatim>\<open>inf\<close> for a positive numerator, so that \<^verbatim>\<open>r_squared\<close> is
  \<^verbatim>\<open>nan\<close> or \<^verbatim>\<open>-inf\<close>. (Both sums are sums of squares, so \<^verbatim>\<open>+inf\<close> is not a score.)
\<close>

datatype score = Num real | NegInf | NaN

definition r_squared :: "real list \<Rightarrow> real list \<Rightarrow> error + score" where
  "r_squared Z_combined Z_fit_combined =
     (if length Z_combined \<noteq> length Z_fit_combined then Inl BroadcastError
      else
        (let residuals = map2 (-) Z_combined Z_fit_combined;
             ss_res = sum_list (map (\<lambda>x. x\<^sup>2) residuals);
             mean = sum_list Z_combined / real (length Z_combined);
             ss_tot = sum_list (map (\<lambda>x. (x - mean)\<^sup>2) Z_combined)
         in if ss_tot = 0 then Inr (if ss_res = 0 then NaN else NegInf)
            else Inr (Num (1 - ss_res / ss_tot))))"

text \<open>
  \<^verbatim>\<open>scipy.optimize.curve_fit\<close> is not part of the repository: it is the argument
  \<open>curve_fit\<close>, called with the model function, the frequencies, the observed vector, the
  initial guess and the pair of bound vectors, and returning the optimum or raising.
  \<open>fit\<close> returns the updated parameter mapping (the caller's dictionary, mutated in
  place) and the score.
\<close>

type_synonym optimizer =
  "(real list \<Rightarrow> real list \<Rightarrow> error + real list) \<Rightarrow> real list \<Rightarrow> real list \<Rightarrow> real list
     \<Rightarrow> real list \<times> bound list \<Rightarrow> error + real list"

definition fit ::
  "optimizer \<Rightarrow> CircuitNode \<Rightarrow> real list \<Rightarrow> complex list \<Rightarrow> params \<Rightarrow> real
     \<Rightarrow> error + params \<times> score" where
  "fit curve_fit node freq Z_exp ps eps =
     (case flatten eps ps of
        Inl e \<Rightarrow> Inl e
      | Inr fl \<Rightarrow>
          (let Z_combined = map Re Z_exp @ map Im Z_exp in
           case curve_fit (model_wrapper (structure fl) node) freq Z_combined (p0 fl)
                  (lower_bounds fl, upper_bounds fl) of
             Inl e \<Rightarrow> Inl e
           | Inr popt \<Rightarrow>
               (case model_wrapper (structure fl) node freq popt of
                  Inl e \<Rightarrow> Inl e
                | Inr Z_fit_combined \<Rightarrow>
                    (case r_squared Z_combined Z_fit_combined of
                       Inl e \<Rightarrow> Inl e
                     | Inr r2 \<Rightarrow>
                         (case rebuild_loop ps (structure fl) popt 0 of
                            Inl e \<Rightarrow> Inl e
                          | Inr ps' \<Rightarrow> Inr (ps', r2))))))"

section \<open>The model selector (fitting.py)\<close>

text \<open>
  \<open>best_r_squared\<close> starts at \<^verbatim>\<open>-np.inf\<close>. \<open>exceeds a b\<close> is the comparison \<^verbatim>\<open>a > b\<close> of
  two doubles: false whenever one of them is \<^verbatim>\<open>nan\<close>, and false for \<^verbatim>\<open>-inf > -inf\<close>. The
  state of the loop is the record \<open>selection\<close>; \<open>failed_models\<close> pairs each failed
  candidate with the exception caught for it. The call
  \<^verbatim>\<open>circuit.fit(freq, Z_exp, params)\<close> at the fixed data is the argument \<open>fit_fn\<close>.
\<close>

fun exceeds :: "score \<Rightarrow> score \<Rightarrow> bool" where
  "exceeds (Num a) (Num b) = (a > b)"
| "exceeds (Num a) NegInf = True"
| "exceeds (Num a) NaN = False"
| "exceeds NegInf b = False"
| "exceeds NaN b = False"

record selection =
  best_r_squared :: score
  best_model_found :: "(string \<times> score) option"
  best_params :: "params option"
  failed_models :: "(string \<times> error) list"

text \<open>The body of the \<^verbatim>\<open>try\<close> block: parse, then fit.\<close>

definition attempt ::
  "(CircuitNode \<Rightarrow> params \<Rightarrow> error + params \<times> score) \<Rightarrow> nat \<Rightarrow> string \<Rightarrow> params
     \<Rightarrow> error + params \<times> score" where
  "attempt fit_fn limit model ps =
     (case parse_circuit limit model of
        Inl e \<Rightarrow> Inl e
      | Inr circuit \<Rightarrow> fit_fn circuit ps)"

fun select_loop ::
  "(CircuitNode \<Rightarrow> params \<Rightarrow> error + params \<times> score) \<Rightarrow> nat \<Rightarrow> (string \<times> params) list
     \<Rightarrow> selection \<Rightarrow> selection" where
  "select_loop fit_fn limit [] st = st"
| "select_loop fit_fn limit ((model, ps) # models) st =
     (case attempt fit_fn limit model ps of
        Inr (fitted_params, r2) \<Rightarrow>
          select_loop fit_fn limit models
            (if exceeds r2 (best_r_squared st)
             then st\<lparr>best_r_squared := r2,
                     best_model_found := Some (model, r2),
                     best_params := Some fitted_params\<rparr>
             else st)
      | Inl e \<Rightarrow>
          select_loop fit_fn limit models
            (st\<lparr>failed_models := failed_models st @ [(model, e)]\<rparr>))"

text \<open>
  The result of \<open>best_model\<close>: the returned pair, the failures passed to
  \<^verbatim>\<open>logger.warning\<close> as they were recorded, and the warning issued when no candidate was
  selected, which carries the list of recorded failures.
\<close>

record outcome =
  winner :: "(string \<times> score) option"
  winner_params :: "params option"
  logged_failures :: "(string \<times> error) list"
  all_failed_warning :: "(string \<times> error) list option"

definition best_model ::
  "(CircuitNode \<Rightarrow> params \<Rightarrow> error + params \<times> score) \<Rightarrow> nat \<Rightarrow> (string \<times> params) list
     \<Rightarrow> outcome" where
  "best_model fit_fn limit models =
     (let st = select_loop fit_fn limit models
                 \<lparr>best_r_squared = NegInf, best_model_found = None,
                  best_params = None, failed_models = []\<rparr>
      in \<lparr>winner = best_model_found st,
          winner_params = best_params st,
          logged_failures = failed_models st,
          all_failed_warning =
            (if best_model_found st = None then Some (failed_models st) else None)\<rparr>)"

section \<open>Notions used to state the properties\<close>

text \<open>
  Parenthesis depth, in the words of the specification: scanning from left to right, an
  opening parenthesis raises the depth by one and a closing one lowers it.
  \<open>has_top_level opr s d\<close> says that, starting at depth \<open>d\<close>, the string \<open>s\<close> has the
  operator \<open>opr\<close> at depth 0; \<open>depth_after s d\<close> is the depth at the end of \<open>s\<close>;
  \<open>never_negative s d\<close> says that the depth never falls below 0, that is, that no
  parenthesis is closed before it is opened.
\<close>

fun has_top_level :: "char \<Rightarrow> string \<Rightarrow> int \<Rightarrow> bool" where
  "has_top_level opr [] depth = False"
| "has_top_level opr (c # cs) depth =
     (if c = CHR ''('' then has_top_level opr cs (depth + 1)
      else if c = CHR '')'' then has_top_level opr cs (depth - 1)
      else (c = opr \<and> depth = 0) \<or> has_top_level opr cs depth)"

fun depth_after :: "string \<Rightarrow> int \<Rightarrow> int" where
  "depth_after [] depth = depth"
| "depth_after (c # cs) depth =
     (if c = CHR ''('' then depth_after cs (depth + 1)
      else if c = CHR '')'' then depth_after cs (depth - 1)
      else depth_after cs depth)"

fun never_negative :: "string \<Rightarrow> int \<Rightarrow> bool" where
  "never_negative [] depth = True"
| "never_negative (c # cs) depth =
     (if c = CHR ''('' then never_negative cs (depth + 1)
      else if c = CHR '')'' then 0 \<le> depth - 1 \<and> never_negative cs (depth - 1)
      else never_negative cs depth)"

text \<open>
  The floats for which \<open>round_double\<close> is what the evaluation of two equal resistors in
  parallel computes: doubles \<open>x\<close> so far inside the normal range
  (\<open>2^-1022 \<le> \<bar>y\<bar> < 2^1024\<close>) that \<open>1 / x\<close>, its double and the reciprocal of that double
  stay inside it.
\<close>

definition safe_double :: "real \<Rightarrow> bool" where
  "safe_double x \<longleftrightarrow> round_double x = x \<and> pow2 (- 1021) \<le> \<bar>x\<bar> \<and> \<bar>x\<bar> \<le> pow2 1021"

text \<open>
  What the parts of a split on \<open>opr\<close> are: stripped, without \<open>opr\<close> at depth 0, and never at
  a negative depth.
\<close>

definition part_ok :: "char \<Rightarrow> string \<Rightarrow> bool" where
  "part_ok opr p \<longleftrightarrow> strip p = p \<and> \<not> has_top_level opr p 0 \<and> never_negative p 0"

text \<open>
  The errors that the specification calls grammar errors: an unknown element tag, and
  the failure to read the tag of an empty token.
\<close>

fun grammar_error :: "error \<Rightarrow> bool" where
  "grammar_error IndexError = True"
| "grammar_error (UnknownElementType c) = True"
| "grammar_error e = False"

text \<open>
  The default of the argument \<^verbatim>\<open>eps\<close> of \<^verbatim>\<open>fit\<close> is \<^verbatim>\<open>1e-12\<close>.
\<close>

definition default_eps :: real where
  "default_eps = 1 / 10 ^ 12"

text \<open>
  The bounds of the slots of one key, in the words of the specification: one slot
  \<open>[eps, +\<infinity>)\<close> for a scalar; for a tuple under a key with tag Q the slots
  \<open>[eps, +\<infinity>)\<close> and \<open>[eps, 1]\<close>; for any other tuple \<open>[eps, +\<infinity>)\<close> on every slot.
\<close>

fun slot_bounds :: "real \<Rightarrow> string \<Rightarrow> pvalue \<Rightarrow> (real \<times> bound) list" where
  "slot_bounds eps key (Scalar x) = [(eps, Infinity)]"
| "slot_bounds eps key (Tuple xs) =
     (if key \<noteq> [] \<and> hd key = CHR ''Q'' then [(eps, Infinity), (eps, Finite 1)]
      else replicate (length xs) (eps, Infinity))"

text \<open>What a key contributes, looked up in the mapping.\<close>

definition key_slots :: "params \<Rightarrow> string \<Rightarrow> real list" where
  "key_slots ps k = (case map_of ps k of None \<Rightarrow> [] | Some v \<Rightarrow> slots v)"

definition key_arity :: "params \<Rightarrow> string \<Rightarrow> nat" where
  "key_arity ps k = (case map_of ps k of None \<Rightarrow> 0 | Some v \<Rightarrow> arity v)"

definition key_bounds :: "real \<Rightarrow> params \<Rightarrow> string \<Rightarrow> (real \<times> bound) list" where
  "key_bounds eps ps k = (case map_of ps k of None \<Rightarrow> [] | Some v \<Rightarrow> slot_bounds eps k v)"

text \<open>
  Every slot of the flat vector, in order, paired with the bounds that \<open>slot_bounds\<close>
  gives it.
\<close>

definition slot_table :: "real \<Rightarrow> params \<Rightarrow> (real \<times> real \<times> bound) list" where
  "slot_table eps ps =
     concat (map (\<lambda>k. zip (key_slots ps k) (key_bounds eps ps k)) (sorted_keys ps))"

text \<open>
  The value rebuilt from the slots of a value: a scalar for one slot, a tuple otherwise.
  It differs from the value itself only for a tuple of length 1.
\<close>

definition reshape :: "pvalue \<Rightarrow> pvalue" where
  "reshape v = (if arity v = 1 then Scalar (hd (slots v)) else Tuple (slots v))"

text \<open>
  Flattening a mapping and rebuilding from the flat vector as it is, before any
  optimisation: into a new dictionary, as \<^verbatim>\<open>model_wrapper\<close> does at the initial guess, and
  into the mapping itself, as the last loop of \<^verbatim>\<open>fit\<close> does.
\<close>

definition round_trip :: "real \<Rightarrow> params \<Rightarrow> error + params" where
  "round_trip eps ps =
     (case flatten eps ps of
        Inl e \<Rightarrow> Inl e
      | Inr fl \<Rightarrow> rebuild_loop [] (structure fl) (p0 fl) 0)"

definition round_trip_in_place :: "real \<Rightarrow> params \<Rightarrow> error + params" where
  "round_trip_in_place eps ps =
     (case flatten eps ps of
        Inl e \<Rightarrow> Inl e
      | Inr fl \<Rightarrow> rebuild_loop ps (structure fl) (p0 fl) 0)"

text \<open>The value that the rebuilding loop stores under a key of the mapping.\<close>

definition key_rebuilt :: "params \<Rightarrow> string \<Rightarrow> pvalue" where
  "key_rebuilt ps k = (case map_of ps k of None \<Rightarrow> Tuple [] | Some v \<Rightarrow> reshape v)"

fun is_scalar :: "pvalue \<Rightarrow> bool" where
  "is_scalar (Scalar x) = True"
| "is_scalar (Tuple xs) = False"

text \<open>
  An optimiser that returns its initial guess, as \<^verbatim>\<open>curve_fit\<close> does when the guess is
  already the optimum. It is used to run \<open>fit\<close> on concrete data.
\<close>

definition returns_guess :: optimizer where
  "returns_guess model xdata ydata guess bnds = Inr guess"

text \<open>The candidates whose parse or fit raised, with the exception, in order.\<close>

fun failures ::
  "(CircuitNode \<Rightarrow> params \<Rightarrow> error + params \<times> score) \<Rightarrow> nat \<Rightarrow> (string \<times> params) list
     \<Rightarrow> (string \<times> error) list" where
  "failures fit_fn limit [] = []"
| "failures fit_fn limit ((model, ps) # models) =
     (case attempt fit_fn limit model ps of
        Inl e \<Rightarrow> (model, e) # failures fit_fn limit models
      | Inr r \<Rightarrow> failures fit_fn limit models)"

text \<open>
  Every candidate of a list that succeeded with a number as score scored less than \<open>r\<close>,
  or at most \<open>r\<close>; no successful candidate of a list has a score that exceeds \<open>b\<close>.
\<close>

fun all_less ::
  "(CircuitNode \<Rightarrow> params \<Rightarrow> error + params \<times> score) \<Rightarrow> nat \<Rightarrow> real \<Rightarrow> (string \<times> params) list
     \<Rightarrow> bool" where
  "all_less fit_fn limit r [] = True"
| "all_less fit_fn limit r ((model, ps) # models) =
     ((case attempt fit_fn limit model ps of
         Inr (fp, Num r') \<Rightarrow> r' < r
       | _ \<Rightarrow> True) \<and>
      all_less fit_fn limit r models)"

fun all_at_most ::
  "(CircuitNode \<Rightarrow> params \<Rightarrow> error + params \<times> score) \<Rightarrow> nat \<Rightarrow> real \<Rightarrow> (string \<times> params) list
     \<Rightarrow> bool" where
  "all_at_most fit_fn limit r [] = True"
| "all_at_most fit_fn limit r ((model, ps) # models) =
     ((case attempt fit_fn limit model ps of
         Inr (fp, Num r') \<Rightarrow> r' \<le> r
       | _ \<Rightarrow> True) \<and>
      all_at_most fit_fn limit r models)"

fun none_exceeds ::
  "(CircuitNode \<Rightarrow> params \<Rightarrow> error + params \<times> score) \<Rightarrow> nat \<Rightarrow> score
     \<Rightarrow> (string \<times> params) list \<Rightarrow> bool" where
  "none_exceeds fit_fn limit b [] = True"
| "none_exceeds fit_fn limit b ((model, ps) # models) =
     ((case attempt fit_fn limit model ps of Inl e \<Rightarrow> True | Inr (fp, r') \<Rightarrow> \<not> exceeds r' b) \<and>
      none_exceeds fit_fn limit b models)"

text \<open>
  The final state \<open>fin\<close> of the selection loop has kept the best candidate of the state
  \<open>st\<close> before it; or it has chosen a candidate of the list that exceeds the best score
  \<open>b\<close> so far: one that succeeded with a number \<open>r\<close> as score, after candidates that all
  scored less than \<open>r\<close> and before candidates that scored at most \<open>r\<close>.
\<close>

definition kept :: "selection \<Rightarrow> selection \<Rightarrow> bool" where
  "kept fin st \<longleftrightarrow> best_model_found fin = best_model_found st \<and>
     best_params fin = best_params st \<and> best_r_squared fin = best_r_squared st"

definition chosen ::
  "(CircuitNode \<Rightarrow> params \<Rightarrow> error + params \<times> score) \<Rightarrow> nat \<Rightarrow> (string \<times> params) list
     \<Rightarrow> selection \<Rightarrow> score \<Rightarrow> bool" where
  "chosen fit_fn limit models fin b \<longleftrightarrow>
     (\<exists>pre m ps post fp r.
        models = pre @ (m, ps) # post \<and> attempt fit_fn limit m ps = Inr (fp, Num r) \<and>
        exceeds (Num r) b \<and> best_model_found fin = Some (m, Num r) \<and>
        best_params fin = Some fp \<and> best_r_squared fin = Num r \<and>
        all_less fit_fn limit r pre \<and> all_at_most fit_fn limit r post)"

text \<open>
  A fit function for running the selector on concrete candidates: a single element
  fits with score 1/2, a series circuit with score 9/10, and the fit of a parallel
  circuit raises. \<open>fit_constant_data\<close> is \<open>fit\<close> on two observations that are both
  \<open>5 + 5j\<close>, with the optimiser that returns its initial guess.
\<close>

definition fit_constant_data :: "CircuitNode \<Rightarrow> params \<Rightarrow> error + params \<times> score" where
  "fit_constant_data node ps =
     fit returns_guess node [1, 2] [Complex 5 5, Complex 5 5] ps default_eps"


fun sample_fit :: "CircuitNode \<Rightarrow> params \<Rightarrow> error + params \<times> score" where
  "sample_fit (ElementNode element) ps = Inr (ps, Num (1 / 2))"
| "sample_fit (SeriesNode children) ps = Inr (ps, Num (9 / 10))"
| "sample_fit (ParallelNode children) ps = Inl (OptimizerError ''no convergence'')"

section \<open>Facts about the parser\<close>

lemma strip_Nil: "strip [] = []"
  by (simp add: strip_def)

lemmas parser_defs =
  strip_def isspace_def split_by_operator_def series_node_def parallel_node_def
  create_element_node_def

subsection \<open>White space and \<open>strip\<close>\<close>

lemma isspace_not_symbol:
  "isspace c \<Longrightarrow> c \<noteq> CHR ''('' \<and> c \<noteq> CHR '')'' \<and> c \<noteq> CHR ''-'' \<and> c \<noteq> CHR ''|''"
  by (auto simp: isspace_def)

lemma strip_decompose:
  "\<exists>pre post. s = pre @ strip s @ post \<and> (\<forall>c \<in> set pre. isspace c) \<and>
     (\<forall>c \<in> set post. isspace c)"
proof -
  let ?a = "dropWhile isspace s"
  let ?pre = "takeWhile isspace s"
  let ?post = "rev (takeWhile isspace (rev ?a))"
  have "rev (takeWhile isspace (rev ?a) @ dropWhile isspace (rev ?a)) = ?a"
    by (simp only: takeWhile_dropWhile_id rev_rev_ident)
  then have "rev (dropWhile isspace (rev ?a)) @ ?post = ?a"
    by (simp only: rev_append)
  then have a: "?a = strip s @ ?post" by (simp only: strip_def)
  have "s = ?pre @ ?a" by simp
  with a have "s = ?pre @ strip s @ ?post" by simp
  moreover have "\<forall>c \<in> set ?pre. isspace c" by (auto dest: set_takeWhileD)
  moreover have "\<forall>c \<in> set ?post. isspace c" by (auto dest: set_takeWhileD)
  ultimately show ?thesis by blast
qed

lemma strip_ends:
  "strip s = [] \<or> (\<not> isspace (hd (strip s)) \<and> \<not> isspace (last (strip s)))"
proof (cases "strip s = []")
  case True
  then show ?thesis by simp
next
  case False
  let ?a = "dropWhile isspace s"
  let ?b = "dropWhile isspace (rev ?a)"
  have s: "strip s = rev ?b" by (simp add: strip_def)
  with False have b: "?b \<noteq> []" by simp
  then have 1: "\<not> isspace (hd ?b)" by (rule hd_dropWhile)
  have a: "?a \<noteq> []"
  proof
    assume "?a = []"
    then have "?b = []" by (simp only: rev.simps dropWhile.simps)
    with b show False by simp
  qed
  then have 2: "\<not> isspace (hd ?a)" by (rule hd_dropWhile)
  obtain n where n: "?b = drop n (rev ?a)"
    by (metis dropWhile_eq_drop)
  with b have "last ?b = last (rev ?a)" by (simp add: last_drop)
  also have "\<dots> = hd ?a" using a by (simp add: last_rev)
  finally have 3: "last ?b = hd ?a" .
  have "hd (strip s) = last ?b" using b by (simp add: s hd_rev)
  moreover have "last (strip s) = hd ?b" using b by (simp add: s last_rev)
  ultimately show ?thesis using 1 2 3 by simp
qed

lemma strip_fixed:
  assumes "s = [] \<or> (\<not> isspace (hd s) \<and> \<not> isspace (last s))"
  shows "strip s = s"
proof (cases "s = []")
  case True
  then show ?thesis by (simp add: strip_def)
next
  case False
  with assms have h: "\<not> isspace (hd s)" and l: "\<not> isspace (last s)" by simp_all
  from False h have 1: "dropWhile isspace s = s" by (cases s) simp_all
  from False l have "\<not> isspace (hd (rev s))" by (simp add: hd_rev)
  with False have 2: "dropWhile isspace (rev s) = rev s" by (cases "rev s") simp_all
  show ?thesis by (simp add: strip_def 1 2)
qed

lemma strip_strip: "strip (strip s) = strip s"
  using strip_ends [of s] by (rule strip_fixed)

subsection \<open>Parenthesis depth\<close>

lemma has_top_level_append:
  "has_top_level opr (xs @ ys) d =
     (has_top_level opr xs d \<or> has_top_level opr ys (depth_after xs d))"
  by (induction xs arbitrary: d) auto

lemma never_negative_append:
  "never_negative (xs @ ys) d =
     (never_negative xs d \<and> never_negative ys (depth_after xs d))"
  by (induction xs arbitrary: d) auto

lemma depth_after_append:
  "depth_after (xs @ ys) d = depth_after ys (depth_after xs d)"
  by (induction xs arbitrary: d) auto

lemma spaces_depth:
  assumes "\<forall>c \<in> set sp. isspace c"
  shows "depth_after sp d = d" and "never_negative sp d"
    and "opr = CHR ''-'' \<or> opr = CHR ''|'' \<Longrightarrow> \<not> has_top_level opr sp d"
  using assms by (induction sp arbitrary: d) (auto dest: isspace_not_symbol)

lemma spaces_no_symbol:
  assumes "\<forall>c \<in> set sp. isspace c"
  shows "CHR ''('' \<notin> set sp" and "CHR '')'' \<notin> set sp" and "CHR ''-'' \<notin> set sp"
    and "CHR ''|'' \<notin> set sp"
  using assms by (auto dest: isspace_not_symbol)

lemma strip_depth:
  shows "never_negative (strip s) d = never_negative s d"
    and "depth_after (strip s) d = depth_after s d"
    and "opr = CHR ''-'' \<or> opr = CHR ''|'' \<Longrightarrow>
           has_top_level opr (strip s) d = has_top_level opr s d"
proof -
  obtain pre post where s: "s = pre @ strip s @ post"
    and pre: "\<forall>c \<in> set pre. isspace c" and post: "\<forall>c \<in> set post. isspace c"
    using strip_decompose by blast
  have "never_negative s d = never_negative (pre @ strip s @ post) d"
    using s by simp
  also have "\<dots> = never_negative (strip s) d"
    by (simp only: never_negative_append depth_after_append spaces_depth [OF pre]
        spaces_depth [OF post] simp_thms)
  finally show "never_negative (strip s) d = never_negative s d" by simp
  have "depth_after s d = depth_after (pre @ strip s @ post) d"
    using s by simp
  also have "\<dots> = depth_after (strip s) d"
    by (simp only: depth_after_append spaces_depth [OF pre] spaces_depth [OF post])
  finally show "depth_after (strip s) d = depth_after s d" by simp
  assume opr: "opr = CHR ''-'' \<or> opr = CHR ''|''"
  have "has_top_level opr s d = has_top_level opr (pre @ strip s @ post) d"
    using s by simp
  also have "\<dots> = has_top_level opr (strip s) d"
    by (simp only: has_top_level_append depth_after_append spaces_depth(1) [OF pre]
        spaces_depth(3) [OF pre opr] spaces_depth(3) [OF post opr] simp_thms)
  finally show "has_top_level opr (strip s) d = has_top_level opr s d" by simp
qed

lemma strip_symbols:
  assumes "c = CHR ''('' \<or> c = CHR '')'' \<or> c = CHR ''-'' \<or> c = CHR ''|''"
  shows "c \<in> set (strip s) \<longleftrightarrow> c \<in> set s"
proof -
  obtain pre post where s: "s = pre @ strip s @ post"
    and pre: "\<forall>c \<in> set pre. isspace c" and post: "\<forall>c \<in> set post. isspace c"
    using strip_decompose by blast
  have "set s = set pre \<union> set (strip s) \<union> set post"
    by (subst s) auto
  moreover have "c \<notin> set pre" using assms spaces_no_symbol [OF pre] by auto
  moreover have "c \<notin> set post" using assms spaces_no_symbol [OF post] by auto
  ultimately show ?thesis by auto
qed

lemma paren_free_top_level:
  assumes "CHR ''('' \<notin> set t" and "CHR '')'' \<notin> set t"
  shows "has_top_level opr t d = (opr \<in> set t \<and> d = 0)"
  using assms by (induction t arbitrary: d) auto

lemma never_negative_no_open:
  assumes "never_negative t 0" and "CHR ''('' \<notin> set t"
  shows "CHR '')'' \<notin> set t"
  using assms by (induction t) (auto split: if_splits)

lemma top_level_in_set: "has_top_level opr t d \<Longrightarrow> opr \<in> set t"
  by (induction t arbitrary: d) (auto split: if_splits)

subsection \<open>The scan for operators and the split\<close>

lemma scan_operators_finds:
  assumes "scan_operators cs i d pp sp = (pp', sp')" and "0 \<le> i"
  shows "(sp' \<noteq> - 1 \<longleftrightarrow> sp \<noteq> - 1 \<or> has_top_level CHR ''-'' cs d) \<and>
         (pp' \<noteq> - 1 \<longleftrightarrow> pp \<noteq> - 1 \<or> has_top_level CHR ''|'' cs d)"
  using assms
proof (induction cs arbitrary: i d pp sp)
  case Nil
  then show ?case by simp
next
  case (Cons c cs)
  then show ?case
    by (auto split: if_splits) 
qed

text \<open>
  Every part returned by the split on \<open>opr\<close> is stripped and has no \<open>opr\<close> at depth 0 left;
  if the depth of the string never falls below 0, the same holds for every part.
\<close>

lemma part_ok_strip:
  assumes "opr = CHR ''-'' \<or> opr = CHR ''|''"
    and "\<not> has_top_level opr cur 0" and "never_negative cur 0"
  shows "part_ok opr (strip cur)"
  using assms by (simp add: part_ok_def strip_strip strip_depth)

lemma split_loop_parts:
  assumes "opr = CHR ''-'' \<or> opr = CHR ''|''"
    and "\<forall>p \<in> set parts. part_ok opr p"
    and "\<not> has_top_level opr cur 0" and "never_negative cur 0"
    and "d = depth_after cur 0" and "never_negative s d"
  shows "\<forall>p \<in> set (split_loop opr s parts cur d). part_ok opr p"
  using assms
proof (induction s arbitrary: parts cur d)
  case Nil
  then show ?case by (auto simp: part_ok_strip)
next
  case (Cons c cs)
  have opr: "opr \<noteq> CHR ''('' \<and> opr \<noteq> CHR '')''" using Cons.prems(1) by auto
  consider (op) "c = CHR ''(''" | (cl) "c \<noteq> CHR ''(''" "c = CHR '')''"
    | (sp) "c \<noteq> CHR ''(''" "c \<noteq> CHR '')''" "c = opr \<and> d = 0"
    | (ot) "c \<noteq> CHR ''(''" "c \<noteq> CHR '')''" "\<not> (c = opr \<and> d = 0)"
    by blast
  then show ?case
  proof cases
    case op
    have "\<forall>p \<in> set (split_loop opr cs parts (cur @ [c]) (d + 1)). part_ok opr p"
    proof (rule Cons.IH [OF Cons.prems(1) Cons.prems(2)])
      show "\<not> has_top_level opr (cur @ [c]) 0"
        using Cons.prems(3) op opr by (simp add: has_top_level_append)
      show "never_negative (cur @ [c]) 0"
        using Cons.prems(4) op by (simp add: never_negative_append)
      show "d + 1 = depth_after (cur @ [c]) 0"
        using Cons.prems(5) op by (simp add: depth_after_append)
      show "never_negative cs (d + 1)" using Cons.prems(6) op by simp
    qed
    then show ?thesis using op by simp
  next
    case cl
    have "\<forall>p \<in> set (split_loop opr cs parts (cur @ [c]) (d - 1)). part_ok opr p"
    proof (rule Cons.IH [OF Cons.prems(1) Cons.prems(2)])
      show "\<not> has_top_level opr (cur @ [c]) 0"
        using Cons.prems(3) cl opr by (simp add: has_top_level_append)
      show "never_negative (cur @ [c]) 0"
        using Cons.prems(4,5,6) cl by (simp add: never_negative_append)
      show "d - 1 = depth_after (cur @ [c]) 0"
        using Cons.prems(5) cl by (simp add: depth_after_append)
      show "never_negative cs (d - 1)" using Cons.prems(6) cl by simp
    qed
    then show ?thesis using cl by simp
  next
    case sp
    have "\<forall>p \<in> set (split_loop opr cs (parts @ [strip cur]) [] d). part_ok opr p"
    proof (rule Cons.IH [OF Cons.prems(1)])
      show "\<forall>p \<in> set (parts @ [strip cur]). part_ok opr p"
        using Cons.prems(1,2,3,4) by (auto simp: part_ok_strip)
      show "\<not> has_top_level opr [] 0" by simp
      show "never_negative [] 0" by simp
      show "d = depth_after [] 0" using sp by simp
      show "never_negative cs d" using Cons.prems(6) sp by simp
    qed
    then show ?thesis using sp by simp
  next
    case ot
    have "\<forall>p \<in> set (split_loop opr cs parts (cur @ [c]) d). part_ok opr p"
    proof (rule Cons.IH [OF Cons.prems(1) Cons.prems(2)])
      show "\<not> has_top_level opr (cur @ [c]) 0"
        using Cons.prems(3,5) ot by (auto simp: has_top_level_append)
      show "never_negative (cur @ [c]) 0"
        using Cons.prems(4) ot by (simp add: never_negative_append)
      show "d = depth_after (cur @ [c]) 0"
        using Cons.prems(5) ot by (simp add: depth_after_append)
      show "never_negative cs d" using Cons.prems(6) ot by simp
    qed
    then show ?thesis using ot by auto
  qed
qed

lemma split_by_operator_parts:
  assumes "opr = CHR ''-'' \<or> opr = CHR ''|''" and "never_negative s 0"
  shows "\<forall>p \<in> set (split_by_operator s opr). part_ok opr p"
  unfolding split_by_operator_def
  by (rule split_loop_parts [OF assms(1)]) (use assms(2) in simp_all)

text \<open>
  A string without parentheses and without the operator goes to \<open>current\<close> as a whole.
\<close>

lemma split_loop_plain:
  assumes "CHR ''('' \<notin> set u" and "CHR '')'' \<notin> set u" and "opr \<notin> set u"
  shows "split_loop opr (u @ rest) parts cur d = split_loop opr rest parts (cur @ u) d"
  using assms by (induction u arbitrary: cur) auto

subsection \<open>The two splits of \<open>parse_circuit\<close>\<close>

text \<open>
  A \<open>-\<close> at depth 0 of the stripped string makes \<^verbatim>\<open>parse_circuit\<close> split on \<open>-\<close>, with or
  without parentheses in the string.
\<close>

lemma parse_circuit_series_split:
  assumes "has_top_level CHR ''-'' (strip s) 0"
  shows "parse_circuit (Suc limit) s =
           series_node (map (parse_circuit limit) (split_by_operator (strip s) CHR ''-''))"
proof (cases "CHR ''('' \<in> set (strip s)")
  case True
  obtain pp sp where sc: "scan_operators (strip s) 0 0 (- 1) (- 1) = (pp, sp)"
    by (cases "scan_operators (strip s) 0 0 (- 1) (- 1)") blast
  from scan_operators_finds [OF sc] assms have "sp \<noteq> - 1" by simp
  with True sc show ?thesis by (simp add: Let_def)
next
  case False
  from assms have "CHR ''-'' \<in> set (strip s)" by (rule top_level_in_set)
  with False show ?thesis by (simp add: Let_def)
qed

text \<open>
  Without a \<open>-\<close> at depth 0, a \<open>|\<close> at depth 0 makes it split on \<open>|\<close>, provided that the
  depth never falls below 0.
\<close>

lemma parse_circuit_parallel_split:
  assumes "never_negative (strip s) 0" and "\<not> has_top_level CHR ''-'' (strip s) 0"
    and "has_top_level CHR ''|'' (strip s) 0"
  shows "parse_circuit (Suc limit) s =
           parallel_node (map (parse_circuit limit) (split_by_operator (strip s) CHR ''|''))"
proof (cases "CHR ''('' \<in> set (strip s)")
  case True
  obtain pp sp where sc: "scan_operators (strip s) 0 0 (- 1) (- 1) = (pp, sp)"
    by (cases "scan_operators (strip s) 0 0 (- 1) (- 1)") blast
  from scan_operators_finds [OF sc] assms have "sp = - 1" and "pp \<noteq> - 1" by simp_all
  with True sc show ?thesis by (simp add: Let_def)
next
  case False
  with assms(1) have cl: "CHR '')'' \<notin> set (strip s)" by (rule never_negative_no_open)
  from assms(2) have "CHR ''-'' \<notin> set (strip s)"
    by (simp add: paren_free_top_level [OF False cl])
  moreover from assms(3) have "CHR ''|'' \<in> set (strip s)" by (rule top_level_in_set)
  ultimately show ?thesis using False by (simp add: Let_def)
qed

lemma parse_circuit_strip: "parse_circuit limit (strip s) = parse_circuit limit s"
  by (cases limit) (simp_all add: strip_strip Let_def)

lemma collect_failure:
  assumes "Inl e \<in> set rs"
  shows "\<exists>e'. collect rs = Inl e'"
  using assms
proof (induction rs)
  case Nil
  then show ?case by simp
next
  case (Cons a rs)
  then show ?case by (cases a) (auto split: sum.splits)
qed

lemma parse_circuit_empty: "strip s = [] \<Longrightarrow> parse_circuit (Suc limit) s = Inl IndexError"
  by (simp add: Let_def create_element_node_def strip_Nil)

lemma node_of_empty_part:
  assumes "[] \<in> set parts"
  shows "\<exists>e. series_node (map (parse_circuit limit) parts) = Inl e"
    and "\<exists>e. parallel_node (map (parse_circuit limit) parts) = Inl e"
proof -
  have "\<exists>e. parse_circuit limit [] = Inl e"
  proof (cases limit)
    case 0
    then show ?thesis by simp
  next
    case (Suc n)
    have "parse_circuit (Suc n) [] = Inl IndexError"
      by (rule parse_circuit_empty) (rule strip_Nil)
    with Suc show ?thesis by blast
  qed
  then obtain e where "parse_circuit limit [] = Inl e" ..
  with assms have "Inl e \<in> set (map (parse_circuit limit) parts)" by force
  then obtain e' where e': "collect (map (parse_circuit limit) parts) = Inl e'"
    using collect_failure by blast
  show "\<exists>e. series_node (map (parse_circuit limit) parts) = Inl e"
    by (simp add: series_node_def e')
  show "\<exists>e. parallel_node (map (parse_circuit limit) parts) = Inl e"
    by (simp add: parallel_node_def e')
qed

text \<open>
  A trailing operator: for a string without parentheses and operators that is not blank,
  the split of the string followed by the operator has one part.
\<close>

lemma strip_dropWhile: "strip (dropWhile isspace s) = strip s"
  by (simp add: strip_def)

lemma strip_nonempty:
  assumes "strip s \<noteq> []"
  shows "dropWhile isspace s \<noteq> []"
proof
  assume "dropWhile isspace s = []"
  then have "strip s = []" by (simp only: strip_def rev.simps dropWhile.simps)
  with assms show False by simp
qed

lemma strip_snoc_operator:
  assumes "strip s \<noteq> []" and "\<not> isspace opr"
  shows "strip (s @ [opr]) = dropWhile isspace s @ [opr]"
proof -
  from assms(1) have "dropWhile isspace s \<noteq> []" by (rule strip_nonempty)
  then have "\<exists>x \<in> set s. \<not> isspace x" by (simp only: dropWhile_eq_Nil_conv) blast
  then have "dropWhile isspace (s @ [opr]) = dropWhile isspace s @ [opr]"
    by (metis dropWhile_append1)
  then show ?thesis using assms(2) by (simp add: strip_def)
qed

lemma split_trailing_operator:
  assumes "CHR ''('' \<notin> set s" and "CHR '')'' \<notin> set s" and "opr \<notin> set s"
    and "strip s \<noteq> []" and "opr = CHR ''-'' \<or> opr = CHR ''|''"
  shows "split_by_operator (strip (s @ [opr])) opr = [strip s]"
proof -
  let ?u = "dropWhile isspace s"
  have sp: "\<not> isspace opr" using assms(5) by (auto simp: isspace_def)
  have opr: "opr \<noteq> CHR ''('' \<and> opr \<noteq> CHR '')''" using assms(5) by auto
  have sub: "set ?u \<subseteq> set s" by (auto dest: set_dropWhileD)
  have u: "CHR ''('' \<notin> set ?u" "CHR '')'' \<notin> set ?u" "opr \<notin> set ?u"
    using assms(1,2,3) sub by auto
  have "split_by_operator (strip (s @ [opr])) opr = split_loop opr (?u @ [opr]) [] [] 0"
    by (simp only: split_by_operator_def strip_snoc_operator [OF assms(4) sp])
  also have "\<dots> = split_loop opr [opr] [] ([] @ ?u) 0"
    by (rule split_loop_plain [OF u])
  also have "\<dots> = [strip ?u]" using opr by simp
  finally show ?thesis by (simp only: strip_dropWhile)
qed

lemma trailing_operator_single_child:
  assumes "CHR ''('' \<notin> set s" and "CHR '')'' \<notin> set s"
    and "CHR ''-'' \<notin> set s" and "CHR ''|'' \<notin> set s" and "strip s \<noteq> []"
  shows "parse_circuit (Suc limit) (s @ ''-'') = series_node [parse_circuit limit s]"
    and "parse_circuit (Suc limit) (s @ ''|'') = parallel_node [parse_circuit limit s]"
proof -
  have s1: "split_by_operator (strip (s @ ''-'')) CHR ''-'' = [strip s]"
    by (rule split_trailing_operator) (use assms in simp_all)
  have s2: "split_by_operator (strip (s @ ''|'')) CHR ''|'' = [strip s]"
    by (rule split_trailing_operator) (use assms in simp_all)
  have a: "CHR ''('' \<notin> set (strip (s @ ''-''))" using assms(1)
    by (simp add: strip_symbols)
  have b: "CHR ''-'' \<in> set (strip (s @ ''-''))" by (simp add: strip_symbols)
  have "parse_circuit (Suc limit) (s @ ''-'') =
      series_node (map (parse_circuit limit) (split_by_operator (strip (s @ ''-'')) CHR ''-''))"
    using a b by (simp add: Let_def)
  also have "\<dots> = series_node [parse_circuit limit (strip s)]"
    by (simp only: s1 list.map)
  finally show "parse_circuit (Suc limit) (s @ ''-'') = series_node [parse_circuit limit s]"
    by (simp only: parse_circuit_strip)
  have c: "CHR ''('' \<notin> set (strip (s @ ''|''))" using assms(1)
    by (simp add: strip_symbols)
  have d: "CHR ''-'' \<notin> set (strip (s @ ''|''))" using assms(3)
    by (simp add: strip_symbols)
  have e: "CHR ''|'' \<in> set (strip (s @ ''|''))" by (simp add: strip_symbols)
  have "parse_circuit (Suc limit) (s @ ''|'') =
      parallel_node (map (parse_circuit limit) (split_by_operator (strip (s @ ''|'')) CHR ''|''))"
    using c d e by (simp add: Let_def)
  also have "\<dots> = parallel_node [parse_circuit limit (strip s)]"
    by (simp only: s2 list.map)
  finally show "parse_circuit (Suc limit) (s @ ''|'') = parallel_node [parse_circuit limit s]"
    by (simp only: parse_circuit_strip)
qed

text \<open>
  A closing parenthesis that was never opened: every \<open>-\<close> after it stays below depth 0,
  the split on \<open>-\<close> returns the string itself and the recursion does not end.
\<close>

lemma parse_circuit_loops_inner: "parse_circuit limit ''R1|C1)-R2'' = Inl RecursionError"
proof (induction limit)
  case 0
  then show ?case by simp
next
  case (Suc limit)
  have "parse_circuit (Suc limit) ''R1|C1)-R2'' =
      series_node [parse_circuit limit ''R1|C1)-R2'']"
    by (simp add: strip_def isspace_def split_by_operator_def)
  with Suc show ?case by (simp add: series_node_def)
qed

lemma parse_circuit_loops: "parse_circuit limit ''R3-R1|C1)-R2'' = Inl RecursionError"
proof (cases limit)
  case 0
  then show ?thesis by simp
next
  case (Suc n)
  have "parse_circuit (Suc n) ''R3-R1|C1)-R2'' =
      series_node [parse_circuit n ''R3'', parse_circuit n ''R1|C1)-R2'']"
    by (simp add: strip_def isspace_def split_by_operator_def)
  also have "\<dots> = Inl RecursionError"
    by (cases n) (simp_all add: parse_circuit_loops_inner parser_defs)
  finally show ?thesis using Suc by simp
qed

text \<open>
  Claim C1 as stated fails. In \<^verbatim>\<open>"R3-R1|C1)-R2"\<close> a \<^verbatim>\<open>-\<close> and a \<^verbatim>\<open>|\<close> occur at depth 0.
  The string is split on the first \<^verbatim>\<open>-\<close>, but the part \<^verbatim>\<open>"R1|C1)-R2"\<close> is never split on
  \<^verbatim>\<open>|\<close>: it contains a \<^verbatim>\<open>-\<close>, so \<open>parse_circuit\<close> splits it on \<^verbatim>\<open>-\<close>, which returns the
  part itself, and so on until the recursion limit (here 1000) is reached.
\<close>

theorem parse_circuit_unopened_parenthesis_loops:
  "has_top_level CHR ''-'' ''R3-R1|C1)-R2'' 0 \<and> has_top_level CHR ''|'' ''R3-R1|C1)-R2'' 0 \<and>
   split_by_operator ''R3-R1|C1)-R2'' CHR ''-'' = [''R3'', ''R1|C1)-R2''] \<and>
   split_by_operator ''R1|C1)-R2'' CHR ''-'' = [''R1|C1)-R2''] \<and>
   parse_circuit 1000 ''R3-R1|C1)-R2'' = Inl RecursionError"
  by (simp add: parse_circuit_loops strip_def isspace_def split_by_operator_def)

text \<open>
  Claim C1, amended. Let the stripped string have a \<^verbatim>\<open>-\<close> at parenthesis depth 0 and let
  its depth never fall below 0 (no parenthesis is closed before it is opened). Then
  \<open>parse_circuit\<close> splits it on the top-level \<^verbatim>\<open>-\<close> first, whether or not a \<^verbatim>\<open>|\<close> occurs
  at depth 0 and whether or not the string has parentheses: the result is the Series node
  of the parsed parts. No part has a \<^verbatim>\<open>-\<close> at depth 0 left, and every part with a \<^verbatim>\<open>|\<close> at
  depth 0 is then split on \<^verbatim>\<open>|\<close> and gives the Parallel node of its parsed parts. For
  \<^verbatim>\<open>"R1-C1|R2"\<close> the result is a Series node of exactly two children, the element node R1
  and a Parallel node of the element nodes C1 and R2.
\<close>

theorem parse_circuit_series_binds_first:
  assumes "never_negative (strip s) 0" and "has_top_level CHR ''-'' (strip s) 0"
  shows "parse_circuit (Suc (Suc limit)) s =
           series_node (map (\<lambda>p. if has_top_level CHR ''|'' p 0
                                  then parallel_node (map (parse_circuit limit)
                                         (split_by_operator p CHR ''|''))
                                  else parse_circuit (Suc limit) p)
                          (split_by_operator (strip s) CHR ''-'')) \<and>
         (\<forall>p \<in> set (split_by_operator (strip s) CHR ''-''). \<not> has_top_level CHR ''-'' p 0) \<and>
         parse_circuit (Suc (Suc (Suc limit))) ''R1-C1|R2'' =
           Inr (SeriesNode [ElementNode (Resistor ''1''),
                  ParallelNode [ElementNode (Capacitor ''1''), ElementNode (Resistor ''2'')]])"
proof -
  let ?parts = "split_by_operator (strip s) CHR ''-''"
  have ok: "\<forall>p \<in> set ?parts. part_ok CHR ''-'' p"
    using assms(1) by (simp add: split_by_operator_parts)
  have "parse_circuit (Suc (Suc limit)) s = series_node (map (parse_circuit (Suc limit)) ?parts)"
    using assms(2) by (rule parse_circuit_series_split)
  also have "map (parse_circuit (Suc limit)) ?parts =
      map (\<lambda>p. if has_top_level CHR ''|'' p 0
               then parallel_node (map (parse_circuit limit) (split_by_operator p CHR ''|''))
               else parse_circuit (Suc limit) p) ?parts"
  proof (rule map_cong [OF refl])
    fix p
    assume "p \<in> set ?parts"
    with ok have p: "strip p = p" "\<not> has_top_level CHR ''-'' p 0" "never_negative p 0"
      by (simp_all add: part_ok_def)
    show "parse_circuit (Suc limit) p =
        (if has_top_level CHR ''|'' p 0
         then parallel_node (map (parse_circuit limit) (split_by_operator p CHR ''|''))
         else parse_circuit (Suc limit) p)"
    proof (cases "has_top_level CHR ''|'' p 0")
      case True
      have "parse_circuit (Suc limit) p =
          parallel_node (map (parse_circuit limit) (split_by_operator (strip p) CHR ''|''))"
        by (rule parse_circuit_parallel_split) (use p True in simp_all)
      with True p(1) show ?thesis by simp
    next
      case False
      then show ?thesis by simp
    qed
  qed
  finally have 1: "parse_circuit (Suc (Suc limit)) s =
      series_node (map (\<lambda>p. if has_top_level CHR ''|'' p 0
               then parallel_node (map (parse_circuit limit) (split_by_operator p CHR ''|''))
               else parse_circuit (Suc limit) p) ?parts)" .
  have 2: "\<forall>p \<in> set ?parts. \<not> has_top_level CHR ''-'' p 0"
    using ok by (simp add: part_ok_def)
  have 3: "parse_circuit (Suc (Suc (Suc limit))) ''R1-C1|R2'' =
      Inr (SeriesNode [ElementNode (Resistor ''1''),
             ParallelNode [ElementNode (Capacitor ''1''), ElementNode (Resistor ''2'')]])"
    by (simp add: parser_defs)
  from 1 2 3 show ?thesis by blast
qed

theorem parse_circuit_series_binds_first_witness:
  "never_negative (strip ''R1-Q1|(R2-W1)'') 0 \<and>
   has_top_level CHR ''-'' (strip ''R1-Q1|(R2-W1)'') 0 \<and>
   has_top_level CHR ''|'' (strip ''R1-Q1|(R2-W1)'') 0 \<and>
   split_by_operator (strip ''R1-Q1|(R2-W1)'') CHR ''-'' = [''R1'', ''Q1|(R2-W1)''] \<and>
   parse_circuit (Suc (Suc (Suc (Suc (Suc 0))))) ''R1-Q1|(R2-W1)'' =
     Inr (SeriesNode [ElementNode (Resistor ''1''),
            ParallelNode [ElementNode (CPE ''1''),
              SeriesNode [ElementNode (Resistor ''2''), ElementNode (Warburg ''1'')]]])"
  using parse_circuit_series_binds_first [of "''R1-Q1|(R2-W1)''" "Suc (Suc (Suc 0))"]
  by (simp add: parser_defs)

text \<open>
  What \<open>create_element_node\<close> does with a token, by its tag: the tags R, C, L, W and Q
  give an element node, every other tag that is not white space gives the
  unknown-element error.
\<close>

lemma strip_token:
  "\<not> isspace tag \<Longrightarrow> strip (tag # ident) = tag # rev (dropWhile isspace (rev ident))"
  by (simp add: strip_def dropWhile_append)

lemma create_element_node_by_tag:
  assumes "\<not> isspace tag"
  shows "create_element_node (tag # ident) =
     (let name = rev (dropWhile isspace (rev ident)) in
      if tag = CHR ''R'' then Inr (ElementNode (Resistor name))
      else if tag = CHR ''C'' then Inr (ElementNode (Capacitor name))
      else if tag = CHR ''L'' then Inr (ElementNode (Inductor name))
      else if tag = CHR ''W'' then Inr (ElementNode (Warburg name))
      else if tag = CHR ''Q'' then Inr (ElementNode (CPE name))
      else Inl (UnknownElementType tag))"
  by (simp add: create_element_node_def strip_token [OF assms] Let_def)

text \<open>
  Claim C2, at the inputs where the code departs from it. The tags S and O name the
  element classes \<open>WarburgShort\<close> and \<open>WarburgOpen\<close>, yet \<open>create_element_node\<close> has
  no branch for them: the tokens \<^verbatim>\<open>"S1"\<close> and \<^verbatim>\<open>"O1"\<close> fail with the unknown-element
  error, as does a whole circuit that contains one of them.
\<close>

theorem create_element_node_rejects_S_and_O:
  "create_element_node ''S1'' = Inl (UnknownElementType CHR ''S'') \<and>
   create_element_node ''O1'' = Inl (UnknownElementType CHR ''O'') \<and>
   parse_circuit (Suc (Suc limit)) ''R1-S1'' = Inl (UnknownElementType CHR ''S'')"
  by (simp add: parser_defs)

text \<open>
  Claim C9 as stated fails: the trailing empty part of \<^verbatim>\<open>"R1-"\<close> is never turned into a
  token, because the splitter appends the last part only when it is non-empty, and the
  parse succeeds.
\<close>

theorem parse_circuit_trailing_operator_succeeds:
  "parse_circuit 10 ''R1-'' = Inr (SeriesNode [ElementNode (Resistor ''1'')])"
  by code_simp

text \<open>
  Claim C9, amended. A circuit string that is empty after stripping fails with a grammar
  error. A string fails as well when its split on the top-level operator has an empty
  part: the split on \<^verbatim>\<open>-\<close> when there is a \<^verbatim>\<open>-\<close> at depth 0, and otherwise the split on \<^verbatim>\<open>|\<close>
  when there is a \<^verbatim>\<open>|\<close> at depth 0 and the depth never falls below 0; so \<^verbatim>\<open>"-R1"\<close> and
  \<^verbatim>\<open>"R1--C1"\<close> fail, with the grammar error of their empty part. A trailing operator
  gives no empty part, since the splitter drops an empty last part: for a string \<open>s\<close>
  without parentheses and operators that is not blank, \<open>s\<close> followed by \<^verbatim>\<open>-\<close> parses to the
  Series node, and \<open>s\<close> followed by \<^verbatim>\<open>|\<close> to the Parallel node, of the single child parsed
  from \<open>s\<close>, and fails only if \<open>s\<close> does; \<^verbatim>\<open>"R1-"\<close> gives a Series node of the single child
  R1.
\<close>

theorem parse_circuit_empty_token:
  "(strip s = [] \<longrightarrow> (\<exists>e. parse_circuit (Suc limit) s = Inl e \<and> grammar_error e)) \<and>
   (has_top_level CHR ''-'' (strip s) 0 \<and> [] \<in> set (split_by_operator (strip s) CHR ''-'') \<longrightarrow>
      (\<exists>e. parse_circuit (Suc limit) s = Inl e)) \<and>
   (never_negative (strip s) 0 \<and> \<not> has_top_level CHR ''-'' (strip s) 0 \<and>
    has_top_level CHR ''|'' (strip s) 0 \<and> [] \<in> set (split_by_operator (strip s) CHR ''|'') \<longrightarrow>
      (\<exists>e. parse_circuit (Suc limit) s = Inl e)) \<and>
   (CHR ''('' \<notin> set s \<and> CHR '')'' \<notin> set s \<and> CHR ''-'' \<notin> set s \<and> CHR ''|'' \<notin> set s \<and>
    strip s \<noteq> [] \<longrightarrow>
      parse_circuit (Suc limit) (s @ ''-'') = series_node [parse_circuit limit s] \<and>
      parse_circuit (Suc limit) (s @ ''|'') = parallel_node [parse_circuit limit s]) \<and>
   parse_circuit (Suc (Suc limit)) ''-R1'' = Inl IndexError \<and>
   parse_circuit (Suc (Suc limit)) ''R1--C1'' = Inl IndexError \<and>
   grammar_error IndexError \<and>
   parse_circuit (Suc (Suc limit)) ''R1-'' = Inr (SeriesNode [ElementNode (Resistor ''1'')])"
proof -
  have 1: "strip s = [] \<longrightarrow> (\<exists>e. parse_circuit (Suc limit) s = Inl e \<and> grammar_error e)"
    by (simp add: parse_circuit_empty del: parse_circuit.simps)
  have 2: "has_top_level CHR ''-'' (strip s) 0 \<and>
      [] \<in> set (split_by_operator (strip s) CHR ''-'') \<longrightarrow>
      (\<exists>e. parse_circuit (Suc limit) s = Inl e)"
    by (simp add: parse_circuit_series_split node_of_empty_part del: parse_circuit.simps)
  have 3: "never_negative (strip s) 0 \<and> \<not> has_top_level CHR ''-'' (strip s) 0 \<and>
      has_top_level CHR ''|'' (strip s) 0 \<and>
      [] \<in> set (split_by_operator (strip s) CHR ''|'') \<longrightarrow>
      (\<exists>e. parse_circuit (Suc limit) s = Inl e)"
    by (simp add: parse_circuit_parallel_split node_of_empty_part del: parse_circuit.simps)
  have 4: "CHR ''('' \<notin> set s \<and> CHR '')'' \<notin> set s \<and> CHR ''-'' \<notin> set s \<and> CHR ''|'' \<notin> set s \<and>
      strip s \<noteq> [] \<longrightarrow>
      parse_circuit (Suc limit) (s @ ''-'') = series_node [parse_circuit limit s] \<and>
      parse_circuit (Suc limit) (s @ ''|'') = parallel_node [parse_circuit limit s]"
    using trailing_operator_single_child [of s limit] by blast
  have 5: "parse_circuit (Suc (Suc limit)) ''-R1'' = Inl IndexError"
    by (simp add: parser_defs)
  have 6: "parse_circuit (Suc (Suc limit)) ''R1--C1'' = Inl IndexError"
    by (simp add: parser_defs)
  have 7: "parse_circuit (Suc (Suc limit)) ''R1-'' =
      Inr (SeriesNode [ElementNode (Resistor ''1'')])"
    by (simp add: parser_defs)
  from 1 2 3 4 5 6 7 show ?thesis by simp
qed

theorem parse_circuit_empty_token_witness:
  "strip ''  '' = [] \<and> parse_circuit (Suc 0) ''  '' = Inl IndexError \<and>
   has_top_level CHR ''-'' (strip ''X1--R1'') 0 \<and>
   [] \<in> set (split_by_operator (strip ''X1--R1'') CHR ''-'') \<and>
   parse_circuit (Suc (Suc 0)) ''X1--R1'' = Inl (UnknownElementType CHR ''X'') \<and>
   never_negative (strip ''R1|(C1-R2)||L1'') 0 \<and>
   \<not> has_top_level CHR ''-'' (strip ''R1|(C1-R2)||L1'') 0 \<and>
   has_top_level CHR ''|'' (strip ''R1|(C1-R2)||L1'') 0 \<and>
   [] \<in> set (split_by_operator (strip ''R1|(C1-R2)||L1'') CHR ''|'') \<and>
   parse_circuit (Suc (Suc (Suc (Suc 0)))) ''R1|(C1-R2)||L1'' = Inl IndexError \<and>
   strip ''C2 '' \<noteq> [] \<and>
   parse_circuit (Suc (Suc 0)) (''C2 '' @ ''-'') = Inr (SeriesNode [ElementNode (Capacitor ''2'')]) \<and>
   parse_circuit (Suc (Suc 0)) (''C2 '' @ ''|'') = Inr (ParallelNode [ElementNode (Capacitor ''2'')])"
  using parse_circuit_empty_token [of "''  ''" 0] parse_circuit_empty_token [of "''X1--R1''" "Suc 0"]
    parse_circuit_empty_token [of "''R1|(C1-R2)||L1''" "Suc (Suc (Suc 0))"]
    parse_circuit_empty_token [of "''C2 ''" "Suc 0"]
  by (simp add: parser_defs)

section \<open>Facts about the element library\<close>







section \<open>Facts about the rounding to doubles\<close>

lemma pow2_powr: "pow2 e = 2 powr (real_of_int e)"
proof (cases "0 \<le> e")
  case True
  have "(2::real) powr (real (nat e)) = 2 ^ nat e" by (rule powr_realpow) simp
  moreover have "real (nat e) = real_of_int e" using True by simp
  ultimately show ?thesis using True by (simp add: pow2_def)
next
  case False
  have "(2::real) powr (real (nat (- e))) = 2 ^ nat (- e)" by (rule powr_realpow) simp
  moreover have "real (nat (- e)) = - real_of_int e" using False by simp
  ultimately have "(2::real) ^ nat (- e) = 2 powr (- real_of_int e)" by simp
  then show ?thesis using False by (simp add: pow2_def powr_minus_divide)
qed

lemma pow2_pos: "0 < pow2 e"
  by (simp add: pow2_powr)

lemma pow2_add: "pow2 (a + b) = pow2 a * pow2 b"
  by (simp add: pow2_powr powr_add)

lemma pow2_Suc: "pow2 (e + 1) = 2 * pow2 e"
  by (simp add: pow2_powr powr_add)

lemma pow2_52: "pow2 52 = 4503599627370496" and pow2_53: "pow2 53 = 9007199254740992"
  by (simp_all add: pow2_def)

lemma pow2_shift: "pow2 e = 4503599627370496 * pow2 (e - 52)"
proof -
  have "pow2 e = pow2 (52 + (e - 52))" by simp
  also have "\<dots> = pow2 52 * pow2 (e - 52)" by (rule pow2_add)
  finally show ?thesis by (simp only: pow2_52)
qed

lemma floor_log2:
  assumes "pow2 e \<le> a" and "a < pow2 (e + 1)"
  shows "\<lfloor>log 2 a\<rfloor> = e"
proof -
  have a: "0 < a" using assms(1) pow2_pos [of e] by linarith
  have "2 powr (real_of_int e) \<le> 2 powr (log 2 a)" using assms(1) a by (simp add: pow2_powr)
  then have 1: "real_of_int e \<le> log 2 a" by simp
  have "2 powr (log 2 a) < 2 powr (real_of_int (e + 1))" using assms(2) a by (simp add: pow2_powr)
  then have 2: "log 2 a < real_of_int e + 1" by simp
  from 1 2 show ?thesis by (simp add: floor_unique)
qed

lemma pow2_floor_log:
  assumes "0 < a"
  shows "pow2 \<lfloor>log 2 a\<rfloor> \<le> a" and "a < pow2 (\<lfloor>log 2 a\<rfloor> + 1)"
proof -
  have a: "2 powr (log 2 a) = a" using assms by simp
  have "2 powr (real_of_int \<lfloor>log 2 a\<rfloor>) \<le> 2 powr (log 2 a)"
    by (simp only: powr_le_cancel_iff) simp
  then show "pow2 \<lfloor>log 2 a\<rfloor> \<le> a" by (simp only: pow2_powr a)
  have "log 2 a < real_of_int (\<lfloor>log 2 a\<rfloor> + 1)" by linarith
  then have "2 powr (log 2 a) < 2 powr (real_of_int (\<lfloor>log 2 a\<rfloor> + 1))"
    by (simp only: powr_less_cancel_iff) 
  then show "a < pow2 (\<lfloor>log 2 a\<rfloor> + 1)" by (simp only: pow2_powr a)
qed

subsection \<open>Rounding to the nearest integer, ties to even\<close>

lemma round_even_of_int: "round_even (of_int n) = n"
  by (simp add: round_even_def)

lemma round_even_near: "\<bar>real_of_int (round_even y) - y\<bar> \<le> 1 / 2"
proof -
  have "real_of_int \<lfloor>y\<rfloor> \<le> y" and "y < real_of_int \<lfloor>y\<rfloor> + 1" by linarith+
  then show ?thesis by (auto simp: round_even_def Let_def)
qed

lemma round_even_ge:
  assumes "real_of_int m \<le> y"
  shows "m \<le> round_even y"
proof -
  from assms have "m \<le> \<lfloor>y\<rfloor>" by (simp add: le_floor_iff)
  then show ?thesis by (auto simp: round_even_def Let_def)
qed

lemma round_even_le:
  assumes "y \<le> real_of_int m"
  shows "round_even y \<le> m"
proof (cases "y = real_of_int m")
  case True
  then show ?thesis by (simp add: round_even_of_int)
next
  case False
  with assms have "y < real_of_int m" by simp
  then have "\<lfloor>y\<rfloor> < m" by (simp add: floor_less_iff)
  then show ?thesis by (auto simp: round_even_def Let_def)
qed

lemma round_even_minus: "round_even (- y) = - round_even y"
proof (cases "y = real_of_int \<lfloor>y\<rfloor>")
  case True
  then have "- y = real_of_int (- \<lfloor>y\<rfloor>)" by simp
  then have "round_even (- y) = - \<lfloor>y\<rfloor>" by (simp only: round_even_of_int)
  moreover have "round_even y = \<lfloor>y\<rfloor>" using True round_even_of_int [of "\<lfloor>y\<rfloor>"] by simp
  ultimately show ?thesis by simp
next
  case False
  have "real_of_int \<lfloor>y\<rfloor> \<le> y" by (rule of_int_floor_le)
  with False have lo: "real_of_int \<lfloor>y\<rfloor> < y" by linarith
  have hi: "y < real_of_int \<lfloor>y\<rfloor> + 1" by linarith
  have c: "real_of_int (- \<lfloor>y\<rfloor> - 1) = - real_of_int \<lfloor>y\<rfloor> - 1" by simp
  have fl: "\<lfloor>- y\<rfloor> = - \<lfloor>y\<rfloor> - 1"
  proof (rule floor_unique)
    show "real_of_int (- \<lfloor>y\<rfloor> - 1) \<le> - y" using hi unfolding c by linarith
    show "- y < real_of_int (- \<lfloor>y\<rfloor> - 1) + 1" using lo unfolding c by linarith
  qed
  have par: "even (- \<lfloor>y\<rfloor> - 1) \<longleftrightarrow> odd \<lfloor>y\<rfloor>" by simp
  show ?thesis
    unfolding round_even_def Let_def fl par using lo hi by auto
qed

subsection \<open>Rounding to the nearest double\<close>

lemma round_double_0: "round_double 0 = 0"
  by (simp add: round_double_def)

lemma round_double_minus: "round_double (- x) = - round_double x"
  by (simp add: round_double_def Let_def round_even_minus)

text \<open>
  The rounding of a number whose binary exponent is known; for a positive number it is
  an integer of 53 bits (or \<open>2^53\<close>) times a power of two.
\<close>

lemma round_double_at:
  assumes "pow2 e \<le> \<bar>x\<bar>" and "\<bar>x\<bar> < pow2 (e + 1)"
  shows "round_double x = real_of_int (round_even (x / pow2 (e - 52))) * pow2 (e - 52)"
proof -
  have "x \<noteq> 0" using assms(1) pow2_pos [of e] by auto
  moreover have "\<lfloor>log 2 \<bar>x\<bar>\<rfloor> = e" using assms by (rule floor_log2)
  ultimately show ?thesis by (simp add: round_double_def Let_def)
qed

lemma round_double_pos:
  assumes "0 < x"
  shows "\<exists>n k. round_double x = real_of_int n * pow2 k \<and> 4503599627370496 \<le> n \<and>
           n \<le> 9007199254740992 \<and> \<bar>real_of_int n - x / pow2 k\<bar> \<le> 1 / 2 \<and>
           4503599627370496 * pow2 k \<le> x"
proof -
  let ?e = "\<lfloor>log 2 x\<rfloor>"
  let ?q = "pow2 (?e - 52)"
  let ?n = "round_even (x / ?q)"
  have q: "0 < ?q" by (rule pow2_pos)
  have lo: "pow2 ?e \<le> x" and hi: "x < pow2 (?e + 1)" using assms by (rule pow2_floor_log)+
  have lo': "4503599627370496 * ?q \<le> x" using lo pow2_shift [of ?e] by simp
  have hi': "x < 9007199254740992 * ?q" using hi pow2_shift [of ?e] pow2_Suc [of ?e] by simp
  have "real_of_int 4503599627370496 \<le> x / ?q" using lo' q by (simp add: pos_le_divide_eq)
  then have 1: "4503599627370496 \<le> ?n" by (rule round_even_ge)
  have "x / ?q \<le> real_of_int 9007199254740992" using hi' q by (simp add: pos_divide_le_eq)
  then have 2: "?n \<le> 9007199254740992" by (rule round_even_le)
  have 3: "round_double x = real_of_int ?n * ?q" using assms by (simp add: round_double_def Let_def)
  have 4: "\<bar>real_of_int ?n - x / ?q\<bar> \<le> 1 / 2" by (rule round_even_near)
  from 1 2 3 4 lo' show ?thesis by blast
qed

text \<open>Such a product is a double: rounding leaves it as it is.\<close>

lemma round_double_fixes_53_bits:
  assumes "4503599627370496 \<le> n" and "n < 9007199254740992"
  shows "round_double (real_of_int n * pow2 k) = real_of_int n * pow2 k"
proof -
  let ?x = "real_of_int n * pow2 k"
  have k: "0 < pow2 k" by (rule pow2_pos)
  have n: "4503599627370496 \<le> real_of_int n" "real_of_int n < 9007199254740992"
    using assms by linarith+
  have e: "pow2 (k + 52) = 4503599627370496 * pow2 k" using pow2_shift [of "k + 52"] by simp
  have x: "0 < ?x" using n k by simp
  have "pow2 (k + 52) \<le> ?x" unfolding e using n(1) k by simp
  moreover have "?x < pow2 (k + 52 + 1)" unfolding pow2_Suc e using n(2) k by simp
  ultimately have "round_double ?x =
      real_of_int (round_even (?x / pow2 (k + 52 - 52))) * pow2 (k + 52 - 52)"
    using x by (intro round_double_at) simp_all
  then show ?thesis using k by (simp add: round_even_of_int)
qed

lemma round_double_fixes:
  assumes "4503599627370496 \<le> n" and "n \<le> 9007199254740992"
  shows "round_double (real_of_int n * pow2 k) = real_of_int n * pow2 k"
proof (cases "n = 9007199254740992")
  case True
  have "real_of_int n * pow2 k = real_of_int 4503599627370496 * pow2 (k + 1)"
    using True by (simp add: pow2_Suc)
  moreover have "round_double (real_of_int 4503599627370496 * pow2 (k + 1)) =
      real_of_int 4503599627370496 * pow2 (k + 1)"
    by (rule round_double_fixes_53_bits) simp_all
  ultimately show ?thesis by simp
next
  case False
  with assms show ?thesis by (intro round_double_fixes_53_bits) simp_all
qed

lemma round_double_idem: "round_double (round_double x) = round_double x"
proof -
  have pos: "round_double (round_double x) = round_double x" if "0 < x" for x
  proof -
    from round_double_pos [OF that] obtain n k where
      "round_double x = real_of_int n * pow2 k" "4503599627370496 \<le> n" "n \<le> 9007199254740992"
      by blast
    then show ?thesis by (simp add: round_double_fixes)
  qed
  consider "0 < x" | "x = 0" | "0 < - x" by linarith
  then show ?thesis
  proof cases
    case 1
    then show ?thesis by (rule pos)
  next
    case 2
    then show ?thesis by (simp add: round_double_0)
  next
    case 3
    then have "round_double (round_double (- x)) = round_double (- x)" by (rule pos)
    then show ?thesis by (simp add: round_double_minus)
  qed
qed

lemma round_double_eq_0_iff: "round_double x = 0 \<longleftrightarrow> x = 0"
proof -
  have pos: "0 < round_double x" if "0 < x" for x
  proof -
    from round_double_pos [OF that] obtain n k where
      "round_double x = real_of_int n * pow2 k" "4503599627370496 \<le> n"
      by blast
    then show ?thesis using pow2_pos [of k] by simp
  qed
  consider "0 < x" | "x = 0" | "0 < - x" by linarith
  then show ?thesis
  proof cases
    case 1
    with pos [of x] show ?thesis by simp
  next
    case 2
    then show ?thesis by (simp add: round_double_0)
  next
    case 3
    with pos [of "- x"] show ?thesis by (simp add: round_double_minus)
  qed
qed

lemma round_double_pow2: "round_double (pow2 e) = pow2 e"
proof -
  have "round_double (real_of_int 4503599627370496 * pow2 (e - 52)) =
      real_of_int 4503599627370496 * pow2 (e - 52)"
    by (rule round_double_fixes) simp_all
  then show ?thesis using pow2_shift [of e] by simp
qed

lemma round_double_1: "round_double 1 = 1"
  using round_double_pow2 [of 0] by (simp add: pow2_def)

text \<open>Doubling and halving are exact.\<close>

lemma round_double_twice: "round_double (2 * x) = 2 * round_double x"
proof (cases "x = 0")
  case True
  then show ?thesis by (simp add: round_double_0)
next
  case False
  then have "log 2 \<bar>2 * x\<bar> = 1 + log 2 \<bar>x\<bar>" by (simp add: abs_mult log_mult)
  then have "\<lfloor>log 2 \<bar>2 * x\<bar>\<rfloor> = \<lfloor>log 2 \<bar>x\<bar>\<rfloor> + 1" by simp
  then have q: "pow2 (\<lfloor>log 2 \<bar>2 * x\<bar>\<rfloor> - 52) = 2 * pow2 (\<lfloor>log 2 \<bar>x\<bar>\<rfloor> - 52)"
    using pow2_Suc [of "\<lfloor>log 2 \<bar>x\<bar>\<rfloor> - 52"] by (simp add: algebra_simps)
  show ?thesis using False unfolding round_double_def Let_def q by simp
qed

lemma round_double_half: "round_double (x / 2) = round_double x / 2"
  using round_double_twice [of "x / 2"] by simp

text \<open>The relative error of one rounding is at most \<open>2^-53\<close>.\<close>

lemma round_double_error: "\<bar>round_double x - x\<bar> \<le> \<bar>x\<bar> / 9007199254740992"
proof -
  have pos: "\<bar>round_double x - x\<bar> \<le> x / 9007199254740992" if "0 < x" for x
  proof -
    from round_double_pos [OF that] obtain n k where
      r: "round_double x = real_of_int n * pow2 k"
      and near: "\<bar>real_of_int n - x / pow2 k\<bar> \<le> 1 / 2"
      and lo: "4503599627370496 * pow2 k \<le> x"
      by blast
    have k: "0 < pow2 k" by (rule pow2_pos)
    have "round_double x - x = (real_of_int n - x / pow2 k) * pow2 k"
      using k by (simp add: r algebra_simps)
    then have "\<bar>round_double x - x\<bar> = \<bar>real_of_int n - x / pow2 k\<bar> * pow2 k"
      using k by (simp add: abs_mult)
    also have "\<dots> \<le> 1 / 2 * pow2 k" using near k by (simp add: mult_right_mono)
    also have "\<dots> \<le> x / 9007199254740992" using lo by simp
    finally show ?thesis .
  qed
  consider "0 < x" | "x = 0" | "0 < - x" by linarith
  then show ?thesis
  proof cases
    case 1
    with pos [of x] show ?thesis by simp
  next
    case 2
    then show ?thesis by (simp add: round_double_0)
  next
    case 3
    have "\<bar>round_double x - x\<bar> = \<bar>round_double (- x) - (- x)\<bar>"
      by (simp add: round_double_minus)
    with pos [OF 3] 3 show ?thesis by simp
  qed
qed

section \<open>Facts about the evaluator\<close>

lemma c_quot_one_real:
  assumes "round_double x = x" and "x \<noteq> 0"
  shows "c_quot round_double 1 (Complex x 0) = Inr (Complex (round_double (1 / x)) 0)"
  using assms by (simp add: c_quot_def Let_def round_double_0 round_double_1)

lemma c_quot_by_zero: "c_quot rnd a 0 = Inl ZeroDivisionError"
  by (simp add: c_quot_def)

lemma resistor_node_impedance:
  assumes "getitem ps (str_of (Resistor a)) = Inr (Scalar R)" and "round_double R = R"
  shows "impedance round_double (ElementNode (Resistor a)) f ps = Inr (Complex R 0)"
  using assms
  by (simp add: Resistor_impedance_def rounded_def round_complex_def round_double_0
      complex_eq_iff)

text \<open>
  Two resistors with the same non-zero double \<open>R\<close> in parallel: each admittance is the
  double of \<open>1 / R\<close>, their sum is exact, and the result is the double of the reciprocal
  of the sum.
\<close>

lemma parallel_resistors_value:
  assumes "getitem ps (str_of (Resistor a)) = Inr (Scalar R)"
    and "getitem ps (str_of (Resistor b)) = Inr (Scalar R)"
    and "round_double R = R" and "R \<noteq> 0"
  shows "impedance round_double (ParallelNode [ElementNode (Resistor a), ElementNode (Resistor b)])
           f ps = Inr (Complex (round_double (1 / round_double (1 / R)) / 2) 0)"
proof -
  let ?y = "round_double (1 / R)"
  have y0: "?y \<noteq> 0" using assms(4) by (simp add: round_double_eq_0_iff)
  have y: "round_double ?y = ?y" by (rule round_double_idem)
  have y2: "round_double (2 * ?y) = 2 * ?y" by (simp only: round_double_twice y)
  have za: "impedance round_double (ElementNode (Resistor a)) f ps = Inr (Complex R 0)"
    using assms(1,3) by (rule resistor_node_impedance)
  have zb: "impedance round_double (ElementNode (Resistor b)) f ps = Inr (Complex R 0)"
    using assms(2,3) by (rule resistor_node_impedance)
  have r: "reciprocal round_double (Inr (Complex R 0)) = Inr (Complex ?y 0)"
    using c_quot_one_real [OF assms(3,4)] by (simp add: reciprocal_def)
  have "c_sum round_double 0 (Complex ?y 0) = Complex ?y 0"
    by (simp add: c_sum_def y round_double_0)
  moreover have "c_sum round_double (Complex ?y 0) (Complex ?y 0) = Complex (2 * ?y) 0"
    using y2 by (simp add: c_sum_def round_double_0)
  ultimately have s: "sum_results round_double [Inr (Complex ?y 0), Inr (Complex ?y 0)] =
      Inr (Complex (2 * ?y) 0)"
    by (simp add: sum_results_def)
  have "c_quot round_double 1 (Complex (2 * ?y) 0) =
      Inr (Complex (round_double (1 / (2 * ?y))) 0)"
    using y2 y0 by (intro c_quot_one_real) simp_all
  moreover have "round_double (1 / (2 * ?y)) = round_double (1 / ?y) / 2"
  proof -
    have "1 / (2 * ?y) = (1 / ?y) / 2" by simp
    then show ?thesis by (simp only: round_double_half)
  qed
  ultimately have q: "c_quot round_double 1 (Complex (2 * ?y) 0) =
      Inr (Complex (round_double (1 / ?y) / 2) 0)"
    by simp
  show ?thesis
    by (simp only: impedance.simps(3) list.map za zb r s q sum.case)
qed

text \<open>The result is within a relative error of \<open>2^-51\<close> of \<open>R / 2\<close>.\<close>

lemma two_roundings_error:
  assumes "R \<noteq> 0"
  shows "\<bar>round_double (1 / round_double (1 / R)) / 2 - R / 2\<bar> \<le> \<bar>R\<bar> / 4503599627370496"
proof -
  define u :: real where "u = 1 / 9007199254740992"
  define a where "a = 1 / R"
  define y where "y = round_double a"
  define w where "w = 1 / y"
  have u: "0 < u" "u \<le> 1 / 2" by (simp_all add: u_def)
  have a0: "a \<noteq> 0" using assms by (simp add: a_def)
  have y0: "y \<noteq> 0" using a0 by (simp add: y_def round_double_eq_0_iff)
  have R: "R = 1 / a" by (simp add: a_def)
  have ya: "\<bar>y - a\<bar> \<le> u * \<bar>a\<bar>"
    using round_double_error [of a] by (simp add: y_def u_def)
  have rw: "\<bar>round_double w - w\<bar> \<le> u * \<bar>w\<bar>"
    using round_double_error [of w] by (simp add: u_def)
  have "\<bar>a\<bar> - \<bar>y\<bar> \<le> \<bar>y - a\<bar>" by linarith
  with ya have "\<bar>a\<bar> - u * \<bar>a\<bar> \<le> \<bar>y\<bar>" by linarith
  moreover have "u * \<bar>a\<bar> \<le> 1 / 2 * \<bar>a\<bar>" using u(2) by (rule mult_right_mono) simp
  ultimately have ylow: "\<bar>a\<bar> / 2 \<le> \<bar>y\<bar>" by linarith
  have ypos: "0 < \<bar>y\<bar>" and apos: "0 < \<bar>a\<bar>" using y0 a0 by simp_all
  have wabs: "\<bar>w\<bar> = 1 / \<bar>y\<bar>" by (simp add: w_def)
  have Rabs: "\<bar>R\<bar> = 1 / \<bar>a\<bar>" by (simp add: R)
  have "1 / \<bar>y\<bar> \<le> 1 / (\<bar>a\<bar> / 2)" using ylow apos by (intro divide_left_mono) simp_all
  then have wR: "\<bar>w\<bar> \<le> 2 * \<bar>R\<bar>" by (simp add: wabs Rabs)
  have "w - R = (a - y) / (y * a)" using y0 a0 by (simp add: w_def R field_simps)
  then have "\<bar>w - R\<bar> = \<bar>y - a\<bar> / (\<bar>y\<bar> * \<bar>a\<bar>)" by (simp add: abs_mult abs_minus_commute)
  also have "\<dots> \<le> (u * \<bar>a\<bar>) / (\<bar>y\<bar> * \<bar>a\<bar>)"
    using ya ypos apos by (intro divide_right_mono) simp_all
  also have "\<dots> = u * \<bar>w\<bar>" using apos by (simp add: wabs)
  finally have wRerr: "\<bar>w - R\<bar> \<le> u * \<bar>w\<bar>" .
  have "\<bar>round_double w - R\<bar> \<le> \<bar>round_double w - w\<bar> + \<bar>w - R\<bar>" by linarith
  with rw wRerr have "\<bar>round_double w - R\<bar> \<le> 2 * (u * \<bar>w\<bar>)" by linarith
  moreover have "u * \<bar>w\<bar> \<le> u * (2 * \<bar>R\<bar>)" using wR u(1) by (intro mult_left_mono) simp_all
  ultimately have "\<bar>round_double w - R\<bar> \<le> 4 * u * \<bar>R\<bar>" by linarith
  moreover have "\<bar>round_double w / 2 - R / 2\<bar> = \<bar>round_double w - R\<bar> / 2"
    by (simp add: abs_divide diff_divide_distrib [symmetric])
  ultimately have "\<bar>round_double w / 2 - R / 2\<bar> \<le> 2 * u * \<bar>R\<bar>" by linarith
  then show ?thesis by (simp add: w_def y_def a_def u_def)
qed

text \<open>For a power of two, and its negative, both roundings are exact.\<close>

lemma two_roundings_pow2:
  assumes "\<bar>R\<bar> = pow2 e"
  shows "round_double (1 / round_double (1 / R)) = R"
proof -
  have inv: "1 / pow2 k = pow2 (- k)" for k by (simp add: pow2_powr powr_minus_divide)
  have "round_double (1 / round_double (1 / pow2 e)) = round_double (1 / pow2 (- e))"
    by (simp only: inv round_double_pow2)
  also have "\<dots> = pow2 e" using inv [of "- e"] by (simp add: round_double_pow2)
  finally have p: "round_double (1 / round_double (1 / pow2 e)) = pow2 e" .
  show ?thesis
  proof (cases "0 \<le> R")
    case True
    with assms p show ?thesis by simp
  next
    case False
    with assms have "R = - pow2 e" by simp
    with p show ?thesis by (simp add: round_double_minus)
  qed
qed

text \<open>The doubles of \<open>1 / 49\<close> and of the reciprocal of that double.\<close>

lemma round_double_49: "round_double 49 = 49"
proof -
  have "round_double (real_of_int 6896136929411072 * pow2 (- 47)) =
      real_of_int 6896136929411072 * pow2 (- 47)"
    by (rule round_double_fixes_53_bits) simp_all
  then show ?thesis by (simp add: pow2_def)
qed

lemma round_double_reciprocal_49:
  "round_double (1 / 49) = 5882252574524729 / 288230376151711744"
proof -
  have 1: "round_double (1 / 49) =
      real_of_int (round_even ((1 / 49) / pow2 (- 6 - 52))) * pow2 (- 6 - 52)"
    by (rule round_double_at) (simp_all add: pow2_def)
  have 2: "(1 / 49) / pow2 (- 6 - 52) = (288230376151711744 / 49 :: real)"
    by (simp add: pow2_def)
  have 3: "round_even (288230376151711744 / 49) = 5882252574524729"
    by (simp add: round_even_def Let_def)
  show ?thesis by (simp only: 1 2 3) (simp add: pow2_def)
qed

lemma round_double_back_49:
  "round_double (1 / (5882252574524729 / 288230376151711744)) =
     6896136929411073 / 140737488355328"
proof -
  let ?w = "1 / (5882252574524729 / 288230376151711744) :: real"
  have 1: "round_double ?w = real_of_int (round_even (?w / pow2 (5 - 52))) * pow2 (5 - 52)"
    by (rule round_double_at) (simp_all add: pow2_def)
  have 2: "?w / pow2 (5 - 52) =
      (40564819207303340847894502572032 / 5882252574524729 :: real)"
    by (simp add: pow2_def)
  have 3: "round_even (40564819207303340847894502572032 / 5882252574524729) =
      6896136929411073"
    by (simp add: round_even_def Let_def)
  show ?thesis by (simp only: 1 2 3) (simp add: pow2_def)
qed

lemma safe_double_nonzero: "safe_double R \<Longrightarrow> R \<noteq> 0"
  using pow2_pos [of "- 1021"] by (auto simp: safe_double_def)

lemma safe_double_49: "safe_double 49"
  by (simp add: safe_double_def round_double_49) (simp add: pow2_def)

lemma safe_double_4: "safe_double 4"
proof -
  have "round_double (pow2 2) = pow2 2" by (rule round_double_pow2)
  then have "round_double 4 = 4" by (simp add: pow2_def)
  then show ?thesis by (simp add: safe_double_def) (simp add: pow2_def)
qed

text \<open>
  In exact arithmetic (the rounding is the identity) the result is \<open>R / 2\<close>: the
  departure from it in the program comes from the two roundings alone.
\<close>

lemma exact_parallel_resistors:
  assumes "getitem ps (str_of (Resistor a)) = Inr (Scalar R)"
    and "getitem ps (str_of (Resistor b)) = Inr (Scalar R)" and "R \<noteq> 0"
  shows "impedance (\<lambda>x. x) (ParallelNode [ElementNode (Resistor a), ElementNode (Resistor b)]) f ps =
           Inr (complex_of_real (R / 2))"
  using assms
  by (simp add: Resistor_impedance_def rounded_def round_complex_def reciprocal_def c_quot_def
      sum_results_def c_sum_def complex_eq_iff)

text \<open>
  Claim C7 as stated fails at \<open>R = 49\<close>: at the frequency 50 the program returns
  \<open>24.5 + 2^-48\<close> (printed \<^verbatim>\<open>24.500000000000004\<close>), not \<open>49 / 2\<close>, because \<open>1 / 49\<close> is rounded
  to a double before it is added and inverted. At \<open>R = 0\<close>, given as a Python float, the
  inversion of the first child's impedance raises and no impedance is returned.
\<close>

theorem parallel_resistors_49_not_half:
  "safe_double 49 \<and>
   impedance round_double
     (ParallelNode [ElementNode (Resistor ''1''), ElementNode (Resistor ''2'')]) 50
     [(''R1'', Scalar 49), (''R2'', Scalar 49)] =
       Inr (complex_of_real (49 / 2 + 1 / 281474976710656)) \<and>
   impedance round_double
     (ParallelNode [ElementNode (Resistor ''1''), ElementNode (Resistor ''2'')]) 50
     [(''R1'', Scalar 49), (''R2'', Scalar 49)] \<noteq> Inr (complex_of_real (49 / 2)) \<and>
   impedance round_double
     (ParallelNode [ElementNode (Resistor ''1''), ElementNode (Resistor ''2'')]) 50
     [(''R1'', Scalar 0), (''R2'', Scalar 0)] = Inl ZeroDivisionError"
proof -
  let ?node = "ParallelNode [ElementNode (Resistor ''1''), ElementNode (Resistor ''2'')]"
  let ?ps = "[(''R1'', Scalar 49), (''R2'', Scalar 49)]"
  have "impedance round_double ?node 50 ?ps =
      Inr (Complex (round_double (1 / round_double (1 / 49)) / 2) 0)"
    by (rule parallel_resistors_value) (simp_all add: getitem_def round_double_49)
  also have "round_double (1 / round_double (1 / 49)) = 6896136929411073 / 140737488355328"
    by (simp only: round_double_reciprocal_49 round_double_back_49)
  finally have v: "impedance round_double ?node 50 ?ps =
      Inr (complex_of_real (49 / 2 + 1 / 281474976710656))"
    by (simp add: complex_eq_iff)
  have z: "impedance round_double ?node 50 [(''R1'', Scalar 0), (''R2'', Scalar 0)] =
      Inl ZeroDivisionError"
    by (simp add: getitem_def Resistor_impedance_def rounded_def round_complex_def
        round_double_0 reciprocal_def c_quot_def sum_results_def)
  show ?thesis using safe_double_49 v z by simp
qed

text \<open>
  Claim C7, amended. Let \<open>R\<close> be a non-zero float (a double inside the normal range, as
  \<open>safe_double\<close> says) and let both resistor keys be bound to it. For every frequency the
  Parallel node of the two resistor element nodes evaluates to a complex number with
  imaginary part 0 whose real part is half the double nearest to the reciprocal of the
  double nearest to \<open>1 / R\<close>. It differs from \<open>R / 2\<close> by at most \<open>\<bar>R\<bar> / 2^52\<close> (a relative
  error of \<open>2^-51\<close>), and it is exactly \<open>R / 2\<close> when \<open>\<bar>R\<bar>\<close> is a power of two.
\<close>

theorem parallel_equal_resistors:
  assumes "getitem ps (str_of (Resistor a)) = Inr (Scalar R)"
    and "getitem ps (str_of (Resistor b)) = Inr (Scalar R)"
    and "safe_double R"
  shows "impedance round_double
           (ParallelNode [ElementNode (Resistor a), ElementNode (Resistor b)]) f ps =
             Inr (complex_of_real (round_double (1 / round_double (1 / R)) / 2)) \<and>
         \<bar>round_double (1 / round_double (1 / R)) / 2 - R / 2\<bar> \<le> \<bar>R\<bar> / 4503599627370496 \<and>
         (\<bar>R\<bar> = pow2 e \<longrightarrow>
            impedance round_double
              (ParallelNode [ElementNode (Resistor a), ElementNode (Resistor b)]) f ps =
                Inr (complex_of_real (R / 2)))"
proof -
  have R: "round_double R = R" "R \<noteq> 0"
    using assms(3) safe_double_nonzero by (simp_all add: safe_double_def)
  have "impedance round_double
      (ParallelNode [ElementNode (Resistor a), ElementNode (Resistor b)]) f ps =
      Inr (Complex (round_double (1 / round_double (1 / R)) / 2) 0)"
    using assms(1,2) R by (rule parallel_resistors_value)
  then have 1: "impedance round_double
      (ParallelNode [ElementNode (Resistor a), ElementNode (Resistor b)]) f ps =
      Inr (complex_of_real (round_double (1 / round_double (1 / R)) / 2))"
    by (simp add: complex_eq_iff)
  have 2: "\<bar>round_double (1 / round_double (1 / R)) / 2 - R / 2\<bar> \<le> \<bar>R\<bar> / 4503599627370496"
    using R(2) by (rule two_roundings_error)
  have 3: "\<bar>R\<bar> = pow2 e \<longrightarrow> round_double (1 / round_double (1 / R)) = R"
    by (simp add: two_roundings_pow2)
  from 1 2 3 show ?thesis by simp
qed

theorem parallel_equal_resistors_witness:
  "safe_double 4 \<and> \<bar>4 :: real\<bar> = pow2 2 \<and>
   impedance round_double
     (ParallelNode [ElementNode (Resistor ''1''), ElementNode (Resistor ''2'')]) 50
     [(''R1'', Scalar 4), (''R2'', Scalar 4)] = Inr (complex_of_real 2)"
proof -
  have p: "\<bar>4 :: real\<bar> = pow2 2" by (simp add: pow2_def)
  have g: "getitem [(''R1'', Scalar 4), (''R2'', Scalar 4)] (str_of (Resistor ''1'')) =
      Inr (Scalar 4)"
    "getitem [(''R1'', Scalar 4), (''R2'', Scalar 4)] (str_of (Resistor ''2'')) =
      Inr (Scalar 4)"
    by (simp_all add: getitem_def)
  from parallel_equal_resistors [OF g safe_double_4, of 50 2] p
  have "impedance round_double
     (ParallelNode [ElementNode (Resistor ''1''), ElementNode (Resistor ''2'')]) 50
     [(''R1'', Scalar 4), (''R2'', Scalar 4)] = Inr (complex_of_real (4 / 2))"
    by blast
  then show ?thesis using safe_double_4 p by simp
qed

section \<open>Facts about the parameter codec\<close>

lemma getitem_in_keys: "k \<in> fst ` set ps \<Longrightarrow> \<exists>v. getitem ps k = Inr v \<and> map_of ps k = Some v"
  by (cases "map_of ps k") (auto simp: getitem_def map_of_eq_None_iff)

lemma startswith_Q: "startswith key ''Q'' \<longleftrightarrow> key \<noteq> [] \<and> hd key = CHR ''Q''"
  by (cases key) (auto simp: startswith_def)

lemma flatten_step_fields:
  assumes "map_of ps k = Some v"
  shows "p0 (flatten_step eps k v st) = p0 st @ key_slots ps k"
    and "lower_bounds (flatten_step eps k v st) = lower_bounds st @ map fst (key_bounds eps ps k)"
    and "upper_bounds (flatten_step eps k v st) = upper_bounds st @ map snd (key_bounds eps ps k)"
    and "structure (flatten_step eps k v st) = structure st @ [(k, key_arity ps k)]"
  using assms
  by (cases v; simp add: flatten_step_def key_slots_def key_bounds_def key_arity_def startswith_Q Let_def)+

lemma flatten_loop_char:
  "set keys \<subseteq> fst ` set ps \<Longrightarrow>
   flatten_loop eps ps keys st =
     Inr \<lparr>p0 = p0 st @ concat (map (key_slots ps) keys),
          lower_bounds = lower_bounds st @ concat (map (\<lambda>k. map fst (key_bounds eps ps k)) keys),
          upper_bounds = upper_bounds st @ concat (map (\<lambda>k. map snd (key_bounds eps ps k)) keys),
          structure = structure st @ map (\<lambda>k. (k, key_arity ps k)) keys\<rparr>"
proof (induction keys arbitrary: st)
  case Nil
  then show ?case by simp
next
  case (Cons k keys)
  then obtain v where v: "getitem ps k = Inr v" "map_of ps k = Some v"
    using getitem_in_keys [of k ps] by auto
  from Cons.prems have sub: "set keys \<subseteq> fst ` set ps" by simp
  show ?case
    by (simp add: v(1) Cons.IH [OF sub] flatten_step_fields [OF v(2)])
qed

lemma flatten_char:
  "flatten eps ps =
     Inr \<lparr>p0 = concat (map (key_slots ps) (sorted_keys ps)),
          lower_bounds = concat (map (\<lambda>k. map fst (key_bounds eps ps k)) (sorted_keys ps)),
          upper_bounds = concat (map (\<lambda>k. map snd (key_bounds eps ps k)) (sorted_keys ps)),
          structure = map (\<lambda>k. (k, key_arity ps k)) (sorted_keys ps)\<rparr>"
proof -
  have "set (sorted_keys ps) \<subseteq> fst ` set ps" by (simp add: sorted_keys_def)
  from flatten_loop_char [OF this] show ?thesis
    by (simp add: flatten_def)
qed

lemma set_sorted_keys: "set (sorted_keys ps) = fst ` set ps"
  by (simp add: sorted_keys_def)

lemma map_of_setitem: "map_of (setitem d k v) = (map_of d)(k \<mapsto> v)"
  by (induction d) auto

lemma keys_setitem:
  "map fst (setitem d k v) = (if k \<in> fst ` set d then map fst d else map fst d @ [k])"
  by (induction d) (auto simp: rev_image_eqI)

lemma setitem_same: "map_of d k = Some v \<Longrightarrow> setitem d k v = d"
  by (induction d) (auto split: if_splits)

lemma length_slots: "length (slots v) = arity v"
  by (cases v) simp_all

lemma key_arity_slots: "length (key_slots ps k) = key_arity ps k"
  by (simp add: key_slots_def key_arity_def length_slots split: option.split)

lemma key_rebuilt_one:
  assumes "key_arity ps k = 1"
  shows "key_rebuilt ps k = Scalar (hd (key_slots ps k))"
  using assms
  by (auto simp: key_rebuilt_def key_arity_def key_slots_def reshape_def split: option.splits)

lemma key_rebuilt_other:
  assumes "key_arity ps k \<noteq> 1"
  shows "key_rebuilt ps k = Tuple (key_slots ps k)"
  using assms
  by (auto simp: key_rebuilt_def key_arity_def key_slots_def reshape_def split: option.splits)

lemma rebuild_loop_flat:
  "rebuild_loop d (map (\<lambda>k. (k, key_arity ps k)) keys)
     (pre @ concat (map (key_slots ps) keys)) (length pre) =
   Inr (fold (\<lambda>k d. setitem d k (key_rebuilt ps k)) keys d)"
proof (induction keys arbitrary: d pre)
  case Nil
  then show ?case by simp
next
  case (Cons k keys)
  let ?seg = "key_slots ps k"
  let ?rest = "concat (map (key_slots ps) keys)"
  have len: "length ?seg = key_arity ps k" by (rule key_arity_slots)
  have IH: "rebuild_loop d' (map (\<lambda>k. (k, key_arity ps k)) keys)
      ((pre @ ?seg) @ ?rest) (length (pre @ ?seg)) =
      Inr (fold (\<lambda>k d. setitem d k (key_rebuilt ps k)) keys d')" for d'
    by (rule Cons.IH)
  show ?case
  proof (cases "key_arity ps k = 1")
    case True
    then obtain x where x: "?seg = [x]"
      using len by (cases ?seg) auto
    have "(pre @ ?seg @ ?rest) ! length pre = x" by (simp add: x)
    moreover have "key_rebuilt ps k = Scalar x"
      using key_rebuilt_one [OF True] x by simp
    ultimately show ?thesis
      using IH [of "setitem d k (Scalar x)"] True x by simp
  next
    case False
    have "take (key_arity ps k) (drop (length pre) (pre @ ?seg @ ?rest)) = ?seg"
      using len by simp
    then show ?thesis
      using IH [of "setitem d k (Tuple ?seg)"] False len key_rebuilt_other [OF False]
      by (simp add: add.commute)
  qed
qed

lemma map_of_fold_setitem:
  "map_of (fold (\<lambda>k d. setitem d k (f k)) keys d) k' =
     (if k' \<in> set keys then Some (f k') else map_of d k')"
  by (induction keys arbitrary: d) (auto simp: map_of_setitem)

lemma keys_fold_setitem_new:
  "fst ` set (fold (\<lambda>k d. setitem d k (f k)) keys d) = fst ` set d \<union> set keys"
proof (induction keys arbitrary: d)
  case Nil
  then show ?case by simp
next
  case (Cons k keys)
  have "fst ` set (setitem d k (f k)) = insert k (fst ` set d)"
    using keys_setitem [of d k "f k"] by (metis (no_types, lifting) list.set_map set_append list.simps(15) empty_set Un_insert_right sup_bot.right_neutral insert_absorb)
  then show ?case using Cons.IH [of "setitem d k (f k)"] by auto
qed

lemma keys_fold_setitem_old:
  "set keys \<subseteq> fst ` set d \<Longrightarrow>
   map fst (fold (\<lambda>k d. setitem d k (f k)) keys d) = map fst d"
proof (induction keys arbitrary: d)
  case Nil
  then show ?case by simp
next
  case (Cons k keys)
  then have "map fst (setitem d k (f k)) = map fst d" by (simp add: keys_setitem)
  moreover from this Cons.prems have "set keys \<subseteq> fst ` set (setitem d k (f k))"
    by (metis list.set_map set_subset_Cons subset_trans)
  ultimately show ?case using Cons.IH [of "setitem d k (f k)"] by simp
qed

lemma fold_setitem_same:
  "\<forall>k \<in> set keys. map_of d k = Some (f k) \<Longrightarrow>
   fold (\<lambda>k d. setitem d k (f k)) keys d = d"
  by (induction keys) (auto simp: setitem_same)


lemma reshape_facts:
  "slots (reshape v) = slots v" "arity (reshape v) = arity v"
  "reshape v = v \<longleftrightarrow> (\<forall>x. v \<noteq> Tuple [x])"
  "is_scalar (reshape v) \<longleftrightarrow> arity v = 1"
proof -
  show "slots (reshape v) = slots v"
    by (cases v; cases "slots v") (auto simp: reshape_def)
  show "arity (reshape v) = arity v"
    by (cases v) (auto simp: reshape_def)
  show "reshape v = v \<longleftrightarrow> (\<forall>x. v \<noteq> Tuple [x])"
    by (cases v) (auto simp: reshape_def length_Suc_conv)
  show "is_scalar (reshape v) \<longleftrightarrow> arity v = 1"
    by (cases v) (auto simp: reshape_def)
qed

lemma round_trip_eq:
  "round_trip eps ps = Inr (fold (\<lambda>k d. setitem d k (key_rebuilt ps k)) (sorted_keys ps) [])"
  using rebuild_loop_flat [of "[]" ps "sorted_keys ps" "[]"]
  by (simp add: round_trip_def flatten_char)

lemma round_trip_in_place_eq:
  "round_trip_in_place eps ps =
     Inr (fold (\<lambda>k d. setitem d k (key_rebuilt ps k)) (sorted_keys ps) ps)"
  using rebuild_loop_flat [of ps ps "sorted_keys ps" "[]"]
  by (simp add: round_trip_in_place_def flatten_char)

lemma key_rebuilt_Some: "map_of ps k = Some v \<Longrightarrow> key_rebuilt ps k = reshape v"
  by (simp add: key_rebuilt_def)

lemma zip_concat_map:
  "\<forall>k \<in> set ks. length (f k) = length (g k) \<Longrightarrow>
   zip (concat (map f ks)) (concat (map g ks)) = concat (map (\<lambda>k. zip (f k) (g k)) ks)"
  by (induction ks) simp_all

lemma length_key_bounds:
  assumes "\<forall>k xs. map_of ps k = Some (Tuple xs) \<and> startswith k ''Q'' \<longrightarrow> length xs = 2"
  shows "length (key_bounds eps ps k) = length (key_slots ps k)"
proof (cases "map_of ps k")
  case None
  then show ?thesis by (simp add: key_bounds_def key_slots_def)
next
  case (Some v)
  show ?thesis
  proof (cases v)
    case (Scalar x)
    with Some show ?thesis by (simp add: key_bounds_def key_slots_def)
  next
    case (Tuple xs)
    with Some assms have "startswith k ''Q'' \<longrightarrow> length xs = 2" by blast
    with Some Tuple show ?thesis
      by (simp add: key_bounds_def key_slots_def startswith_Q)
  qed
qed

text \<open>
  Claim C4 as stated fails when a tuple under a key with tag Q does not have length 2:
  the loop adds as many slots as the tuple is long but always two bounds, so the bounds
  of the later keys no longer lie on their slots. Here the flat vector has the two
  slots of Q1 and R1 and the bound vectors have three entries; the slot of the scalar R1
  is the second one and lies under the upper bound 1.
\<close>

theorem flatten_Q_tuple_misaligns_bounds:
  "flatten default_eps [(''Q1'', Tuple [3]), (''R1'', Scalar 5)] =
     Inr \<lparr>p0 = [3, 5],
          lower_bounds = [default_eps, default_eps, default_eps],
          upper_bounds = [Infinity, Finite 1, Infinity],
          structure = [(''Q1'', 1), (''R1'', 1)]\<rparr>"
  by (simp add: flatten_def sorted_keys_def getitem_def flatten_step_def startswith_def)

text \<open>
  Claim C4, amended. When every tuple under a key with tag Q has length 2, the first
  loop of \<open>fit\<close> takes the keys in lexicographically sorted order (the order of strings
  is the lexicographic one on code points), the three flat vectors have the same length,
  and slot by slot the bounds are those of \<open>slot_bounds\<close>: \<open>[eps, +\<infinity>)\<close> for the slot of
  a scalar; \<open>[eps, +\<infinity>)\<close> for the first and \<open>[eps, 1]\<close> for the second slot of a tuple under
  a key with tag Q; \<open>[eps, +\<infinity>)\<close> for every slot of any other tuple. The default \<open>eps\<close> is
  positive.
\<close>

theorem flatten_sorted_keys_and_bounds:
  assumes "\<forall>k xs. map_of ps k = Some (Tuple xs) \<and> startswith k ''Q'' \<longrightarrow> length xs = 2"
  shows "\<exists>fl. flatten eps ps = Inr fl \<and>
     structure fl = map (\<lambda>k. (k, key_arity ps k)) (sorted_keys ps) \<and>
     sorted (sorted_keys ps) \<and> set (sorted_keys ps) = fst ` set ps \<and>
     p0 fl = concat (map (key_slots ps) (sorted_keys ps)) \<and>
     length (lower_bounds fl) = length (p0 fl) \<and>
     length (upper_bounds fl) = length (p0 fl) \<and>
     zip (p0 fl) (zip (lower_bounds fl) (upper_bounds fl)) = slot_table eps ps \<and>
     (\<forall>k. length (key_bounds eps ps k) = length (key_slots ps k)) \<and>
     0 < default_eps"
proof -
  let ?keys = "sorted_keys ps"
  let ?lo = "concat (map (\<lambda>k. map fst (key_bounds eps ps k)) ?keys)"
  let ?up = "concat (map (\<lambda>k. map snd (key_bounds eps ps k)) ?keys)"
  let ?p0 = "concat (map (key_slots ps) ?keys)"
  have len: "length (key_bounds eps ps k) = length (key_slots ps k)" for k
    using assms by (rule length_key_bounds)
  have lo_up: "zip ?lo ?up = concat (map (key_bounds eps ps) ?keys)"
    by (subst zip_concat_map) (simp_all add: zip_map_fst_snd)
  have tab: "zip ?p0 (zip ?lo ?up) = slot_table eps ps"
    unfolding lo_up slot_table_def by (rule zip_concat_map) (simp add: len)
  have l1: "length ?lo = length ?p0"
    by (simp add: length_concat comp_def len)
  have l2: "length ?up = length ?p0"
    by (simp add: length_concat comp_def len)
  have srt: "sorted ?keys" by (simp add: sorted_keys_def)
  have eps: "0 < default_eps" by (simp add: default_eps_def)
  show ?thesis
    using tab l1 l2 srt eps len by (simp add: flatten_char set_sorted_keys)
qed

theorem flatten_sorted_keys_and_bounds_witness:
  "flatten default_eps [(''R1'', Scalar 100), (''Q1'', Tuple [2, 1 / 2])] =
     Inr \<lparr>p0 = [2, 1 / 2, 100],
          lower_bounds = [default_eps, default_eps, default_eps],
          upper_bounds = [Infinity, Finite 1, Infinity],
          structure = [(''Q1'', 2), (''R1'', 1)]\<rparr> \<and>
   slot_table default_eps [(''R1'', Scalar 100), (''Q1'', Tuple [2, 1 / 2])] =
     [(2, default_eps, Infinity), (1 / 2, default_eps, Finite 1), (100, default_eps, Infinity)]"
proof -
  let ?ps = "[(''R1'', Scalar 100), (''Q1'', Tuple [2, 1 / 2])]"
  have h: "\<forall>k xs. map_of ?ps k = Some (Tuple xs) \<and> startswith k ''Q'' \<longrightarrow> length xs = 2"
    by auto
  have f: "flatten default_eps ?ps =
     Inr \<lparr>p0 = [2, 1 / 2, 100],
          lower_bounds = [default_eps, default_eps, default_eps],
          upper_bounds = [Infinity, Finite 1, Infinity],
          structure = [(''Q1'', 2), (''R1'', 1)]\<rparr>"
    by (simp add: flatten_def sorted_keys_def getitem_def flatten_step_def startswith_def)
  from flatten_sorted_keys_and_bounds [OF h, of default_eps] f show ?thesis
    by auto
qed

text \<open>
  A tuple of length 1 takes one slot and is rebuilt as a scalar, as every value of
  arity 1 is.
\<close>

lemma round_trip_one_tuple:
  "round_trip default_eps [(''R1'', Tuple [5])] = Inr [(''R1'', Scalar 5)]"
  by (simp add: round_trip_eq sorted_keys_def key_rebuilt_def reshape_def)

text \<open>
  Claim C3. For every parameter mapping, flattening it and rebuilding a mapping from the
  flat vector as it is succeeds, both into a new dictionary and in place, and gives a
  mapping with the same keys in which every key has the same numbers in as many slots as
  before, as a scalar when the arity is 1 and as a tuple of the same length when the
  arity is greater than 1 (a tuple of no numbers stays one). A scalar and a tuple of arity
  greater than 1 come back as they were; so a mapping without tuples of length 1 comes
  back equal to the original.
\<close>

theorem codec_round_trip:
  "(\<exists>d ps'. round_trip eps ps = Inr d \<and> round_trip_in_place eps ps = Inr ps' \<and>
      fst ` set d = fst ` set ps \<and> map fst ps' = map fst ps \<and>
      (\<forall>k v. map_of ps k = Some v \<longrightarrow>
         (\<exists>v'. map_of d k = Some v' \<and> map_of ps' k = Some v' \<and> v' = reshape v \<and>
               slots v' = slots v \<and> arity v' = arity v \<and>
               (arity v = 1 \<longrightarrow> v' = Scalar (hd (slots v))) \<and>
               (arity v > 1 \<longrightarrow> v' = Tuple (slots v) \<and> v' = v) \<and>
               (is_scalar v \<longrightarrow> v' = v))) \<and>
      ((\<forall>k x. map_of ps k \<noteq> Some (Tuple [x])) \<longrightarrow> map_of d = map_of ps \<and> ps' = ps)) \<and>
   (\<forall>v. slots (reshape v) = slots v \<and> arity (reshape v) = arity v \<and>
        (is_scalar (reshape v) \<longleftrightarrow> arity v = 1) \<and>
        (reshape v = v \<longleftrightarrow> (\<forall>x. v \<noteq> Tuple [x])))"
proof -
  let ?f = "\<lambda>k d. setitem d k (key_rebuilt ps k)"
  let ?d = "fold ?f (sorted_keys ps) []"
  let ?ps' = "fold ?f (sorted_keys ps) ps"
  have keys_d: "fst ` set ?d = fst ` set ps"
    by (simp add: keys_fold_setitem_new set_sorted_keys)
  have keys_ps': "map fst ?ps' = map fst ps"
    by (rule keys_fold_setitem_old) (simp add: set_sorted_keys)
  have vals: "map_of ?d k = Some (reshape v) \<and> map_of ?ps' k = Some (reshape v)"
    if "map_of ps k = Some v" for k v
  proof -
    from that have "k \<in> set (sorted_keys ps)"
      by (metis set_sorted_keys domI dom_map_of_conv_image_fst)
    then show ?thesis
      by (simp add: map_of_fold_setitem key_rebuilt_Some [OF that])
  qed
  have same: "map_of ?d = map_of ps \<and> ?ps' = ps"
    if no1: "\<forall>k x. map_of ps k \<noteq> Some (Tuple [x])"
  proof
    have keep: "key_rebuilt ps k = v" if "map_of ps k = Some v" for k v
      using that no1 reshape_facts(3) [of v] by (auto simp: key_rebuilt_Some)
    show "map_of ?d = map_of ps"
    proof
      fix k
      show "map_of ?d k = map_of ps k"
      proof (cases "map_of ps k")
        case None
        then have "k \<notin> set (sorted_keys ps)"
          by (simp add: set_sorted_keys map_of_eq_None_iff)
        then show ?thesis using None by (simp add: map_of_fold_setitem)
      next
        case (Some v)
        then show ?thesis using vals [OF Some] keep [OF Some] by (simp add: key_rebuilt_Some)
      qed
    qed
    have "\<forall>k \<in> set (sorted_keys ps). map_of ps k = Some (key_rebuilt ps k)"
    proof
      fix k assume "k \<in> set (sorted_keys ps)"
      then obtain v where v: "map_of ps k = Some v"
        using getitem_in_keys [of k ps] by (auto simp: set_sorted_keys)
      then show "map_of ps k = Some (key_rebuilt ps k)" using keep [OF v] by simp
    qed
    then show "?ps' = ps" by (rule fold_setitem_same)
  qed
  have shape: "reshape v = reshape v \<and> slots (reshape v) = slots v \<and>
      arity (reshape v) = arity v \<and>
      (arity v = 1 \<longrightarrow> reshape v = Scalar (hd (slots v))) \<and>
      (arity v > 1 \<longrightarrow> reshape v = Tuple (slots v) \<and> reshape v = v) \<and>
      (is_scalar v \<longrightarrow> reshape v = v)" for v
    using reshape_facts(1,2) [of v] by (cases v) (auto simp: reshape_def)
  have vals': "\<exists>v'. map_of ?d k = Some v' \<and> map_of ?ps' k = Some v' \<and> v' = reshape v \<and>
               slots v' = slots v \<and> arity v' = arity v \<and>
               (arity v = 1 \<longrightarrow> v' = Scalar (hd (slots v))) \<and>
               (arity v > 1 \<longrightarrow> v' = Tuple (slots v) \<and> v' = v) \<and>
               (is_scalar v \<longrightarrow> v' = v)"
    if "map_of ps k = Some v" for k v
    using vals [OF that] shape [of v] by blast
  have A: "\<exists>d ps'. round_trip eps ps = Inr d \<and> round_trip_in_place eps ps = Inr ps' \<and>
      fst ` set d = fst ` set ps \<and> map fst ps' = map fst ps \<and>
      (\<forall>k v. map_of ps k = Some v \<longrightarrow>
         (\<exists>v'. map_of d k = Some v' \<and> map_of ps' k = Some v' \<and> v' = reshape v \<and>
               slots v' = slots v \<and> arity v' = arity v \<and>
               (arity v = 1 \<longrightarrow> v' = Scalar (hd (slots v))) \<and>
               (arity v > 1 \<longrightarrow> v' = Tuple (slots v) \<and> v' = v) \<and>
               (is_scalar v \<longrightarrow> v' = v))) \<and>
      ((\<forall>k x. map_of ps k \<noteq> Some (Tuple [x])) \<longrightarrow> map_of d = map_of ps \<and> ps' = ps)"
    unfolding round_trip_eq round_trip_in_place_eq
    using keys_d keys_ps' vals' same by blast
  have B: "\<forall>v. slots (reshape v) = slots v \<and> arity (reshape v) = arity v \<and>
        (is_scalar (reshape v) \<longleftrightarrow> arity v = 1) \<and>
        (reshape v = v \<longleftrightarrow> (\<forall>x. v \<noteq> Tuple [x]))"
    using reshape_facts by blast
  from A B show ?thesis by blast
qed



theorem codec_round_trip_witness:
  "round_trip default_eps [(''R1'', Scalar 100), (''Q1'', Tuple [2, 1 / 2])] =
     Inr [(''Q1'', Tuple [2, 1 / 2]), (''R1'', Scalar 100)] \<and>
   round_trip_in_place default_eps [(''R1'', Scalar 100), (''Q1'', Tuple [2, 1 / 2])] =
     Inr [(''R1'', Scalar 100), (''Q1'', Tuple [2, 1 / 2])]"
  using codec_round_trip [of default_eps "[(''R1'', Scalar 100), (''Q1'', Tuple [2, 1 / 2])]"]
  by (simp add: round_trip_eq round_trip_in_place_eq sorted_keys_def key_rebuilt_def reshape_def)


section \<open>Facts about the fitting engine\<close>

lemma rebuild_loop_general:
  "idx + sum_list (map g keys) \<le> length values \<Longrightarrow>
   \<exists>d'. rebuild_loop d (map (\<lambda>k. (k, g k)) keys) values idx = Inr d' \<and>
     (set keys \<subseteq> fst ` set d \<longrightarrow> map fst d' = map fst d) \<and>
     (\<forall>k. k \<notin> set keys \<longrightarrow> map_of d' k = map_of d k) \<and>
     (\<forall>k \<in> set keys. \<exists>v'. map_of d' k = Some v' \<and> arity v' = g k \<and>
        (is_scalar v' \<longleftrightarrow> g k = 1))"
proof (induction keys arbitrary: d idx)
  case Nil
  then show ?case by simp
next
  case (Cons k keys)
  define v1 where "v1 = (if g k = 1 then Scalar (values ! idx)
                         else Tuple (take (g k) (drop idx values)))"
  define d1 where "d1 = setitem d k v1"
  define idx1 where "idx1 = idx + g k"
  from Cons.prems have bound: "idx1 + sum_list (map g keys) \<le> length values"
    by (simp add: idx1_def add.assoc)
  from Cons.prems have here: "idx + g k \<le> length values" by simp
  have step: "rebuild_loop d (map (\<lambda>k. (k, g k)) (k # keys)) values idx =
      rebuild_loop d1 (map (\<lambda>k. (k, g k)) keys) values idx1"
    using here by (auto simp: d1_def v1_def idx1_def)
  have v1: "arity v1 = g k" "is_scalar v1 \<longleftrightarrow> g k = 1"
    using here by (auto simp: v1_def)
  from Cons.IH [OF bound, of d1] obtain d' where
    res: "rebuild_loop d1 (map (\<lambda>k. (k, g k)) keys) values idx1 = Inr d'"
    and keys: "set keys \<subseteq> fst ` set d1 \<longrightarrow> map fst d' = map fst d1"
    and other: "\<forall>k. k \<notin> set keys \<longrightarrow> map_of d' k = map_of d1 k"
    and mine: "\<forall>k \<in> set keys. \<exists>v'. map_of d' k = Some v' \<and> arity v' = g k \<and>
        (is_scalar v' \<longleftrightarrow> g k = 1)"
    by blast
  have A: "map fst d' = map fst d" if sub: "set (k # keys) \<subseteq> fst ` set d"
  proof -
    from sub have "map fst d1 = map fst d" by (simp add: d1_def keys_setitem)
    moreover from this sub have "set keys \<subseteq> fst ` set d1"
      by (metis list.set_map set_subset_Cons subset_trans)
    ultimately show ?thesis using keys by simp
  qed
  have B: "map_of d' k' = map_of d k'" if "k' \<notin> set (k # keys)" for k'
    using that other by (simp add: d1_def map_of_setitem)
  have C: "\<exists>v'. map_of d' k' = Some v' \<and> arity v' = g k' \<and> (is_scalar v' \<longleftrightarrow> g k' = 1)"
    if "k' \<in> set (k # keys)" for k'
  proof (cases "k' \<in> set keys")
    case True
    then show ?thesis using mine by blast
  next
    case False
    with that have "k' = k" by simp
    with False other have "map_of d' k' = Some v1" by (simp add: d1_def map_of_setitem)
    then show ?thesis using v1 \<open>k' = k\<close> by simp
  qed
  show ?case
    unfolding step using res A B C by blast
qed

lemma length_p0_flat: "length (concat (map (key_slots ps) keys)) = sum_list (map (key_arity ps) keys)"
  by (simp add: length_concat key_arity_slots comp_def)

lemma fit_success_parts:
  assumes "fit curve_fit node freq Z_exp ps eps = Inr (ps', r2)"
  shows "\<exists>model ys popt.
     curve_fit model freq ys (concat (map (key_slots ps) (sorted_keys ps)))
       (concat (map (\<lambda>k. map fst (key_bounds eps ps k)) (sorted_keys ps)),
        concat (map (\<lambda>k. map snd (key_bounds eps ps k)) (sorted_keys ps))) = Inr popt \<and>
     rebuild_loop ps (map (\<lambda>k. (k, key_arity ps k)) (sorted_keys ps)) popt 0 = Inr ps'"
  using assms
  by (auto simp: fit_def flatten_char Let_def split: sum.splits)

text \<open>
  Claim C8 as stated fails for a tuple of length 1: the fit succeeds (the model function
  rebuilds the value as a scalar, which the resistor accepts) and the mapping returned
  holds a scalar where the tuple was.
\<close>

theorem fit_one_tuple_becomes_scalar:
  "fit returns_guess (ElementNode (Resistor ''1'')) [1, 2] [1, 3] [(''R1'', Tuple [2])]
     default_eps = Inr ([(''R1'', Scalar 2)], Num (2 / 3))"
  by (simp add: fit_def flatten_char sorted_keys_def key_slots_def key_arity_def key_bounds_def
      returns_guess_def model_wrapper_def getitem_def Resistor_impedance_def rounded_def
      round_complex_def r_squared_def
      power2_eq_square)

text \<open>
  Claim C8, amended. After a successful call of \<open>fit\<close>, with an optimiser whose result
  is as long as the initial guess, the mapping has the same keys in the same order, and
  every value has as many slots as before: it is a scalar where it was a scalar or a
  tuple of length 1, and a tuple of the same length where it was a tuple of any other
  length.
\<close>

theorem fit_keeps_keys_and_arity:
  assumes opt: "\<forall>model xs ys guess bnds popt.
      curve_fit model xs ys guess bnds = Inr popt \<longrightarrow> length popt = length guess"
    and ok: "fit curve_fit node freq Z_exp ps eps = Inr (ps', r2)"
  shows "map fst ps' = map fst ps \<and>
     (\<forall>k v. map_of ps k = Some v \<longrightarrow>
        (\<exists>v'. map_of ps' k = Some v' \<and> arity v' = arity v \<and>
              (is_scalar v' \<longleftrightarrow> arity v = 1)))"
proof -
  let ?keys = "sorted_keys ps"
  from fit_success_parts [OF ok] obtain model ys popt where
    cf: "curve_fit model freq ys (concat (map (key_slots ps) ?keys))
       (concat (map (\<lambda>k. map fst (key_bounds eps ps k)) ?keys),
        concat (map (\<lambda>k. map snd (key_bounds eps ps k)) ?keys)) = Inr popt"
    and rb: "rebuild_loop ps (map (\<lambda>k. (k, key_arity ps k)) ?keys) popt 0 = Inr ps'"
    by blast
  from opt cf have "length popt = length (concat (map (key_slots ps) ?keys))" by blast
  then have "0 + sum_list (map (key_arity ps) ?keys) \<le> length popt"
    by (simp add: length_p0_flat)
  from rebuild_loop_general [OF this, of ps] rb
  have keys: "set ?keys \<subseteq> fst ` set ps \<longrightarrow> map fst ps' = map fst ps"
    and vals: "\<forall>k \<in> set ?keys. \<exists>v'. map_of ps' k = Some v' \<and> arity v' = key_arity ps k \<and>
        (is_scalar v' \<longleftrightarrow> key_arity ps k = 1)"
    by auto
  have "map fst ps' = map fst ps" using keys by (simp add: set_sorted_keys)
  moreover have "\<exists>v'. map_of ps' k = Some v' \<and> arity v' = arity v \<and>
      (is_scalar v' \<longleftrightarrow> arity v = 1)" if "map_of ps k = Some v" for k v
  proof -
    from that have "k \<in> set ?keys"
      by (metis set_sorted_keys domI dom_map_of_conv_image_fst)
    with vals that show ?thesis by (auto simp: key_arity_def)
  qed
  ultimately show ?thesis by blast
qed

theorem fit_keeps_keys_and_arity_witness:
  "fit returns_guess (ElementNode (Resistor ''1'')) [1, 2] [1, 3]
     [(''R1'', Scalar 2), (''Q9'', Tuple [1, 1 / 2])] default_eps =
     Inr ([(''R1'', Scalar 2), (''Q9'', Tuple [1, 1 / 2])], Num (2 / 3)) \<and>
   (\<exists>v'. map_of [(''R1'', Scalar 2), (''Q9'', Tuple [1, 1 / 2])] ''Q9'' = Some v' \<and>
         arity v' = 2 \<and> \<not> is_scalar v')"
proof -
  have ok: "fit returns_guess (ElementNode (Resistor ''1'')) [1, 2] [1, 3]
     [(''R1'', Scalar 2), (''Q9'', Tuple [1, 1 / 2])] default_eps =
     Inr ([(''R1'', Scalar 2), (''Q9'', Tuple [1, 1 / 2])], Num (2 / 3))"
    by (simp add: fit_def flatten_char sorted_keys_def key_slots_def key_arity_def key_bounds_def
      returns_guess_def model_wrapper_def getitem_def Resistor_impedance_def rounded_def
      round_complex_def r_squared_def
      power2_eq_square)
  have opt: "\<forall>model xs ys guess bnds popt.
      returns_guess model xs ys guess bnds = Inr popt \<longrightarrow> length popt = length guess"
    by (simp add: returns_guess_def)
  from fit_keeps_keys_and_arity [OF opt ok] ok show ?thesis by simp
qed

section \<open>Facts about the model selector\<close>

lemma exceeds_trans: "exceeds (Num r0) b \<Longrightarrow> r0 < r \<Longrightarrow> exceeds (Num r) b"
  by (cases b) auto

lemma not_exceeds_less: "\<not> exceeds (Num r0) b \<Longrightarrow> exceeds (Num r) b \<Longrightarrow> r0 < r"
  by (cases b) auto

lemma exceeds_is_Num: "exceeds sc b \<Longrightarrow> \<exists>r. sc = Num r"
  by (cases sc) auto

lemma none_exceeds_Num:
  "none_exceeds fit_fn limit (Num r) models = all_at_most fit_fn limit r models"
proof (induction models)
  case Nil
  then show ?case by simp
next
  case (Cons c models)
  obtain m ps where c: "c = (m, ps)" by (cases c)
  have "(case attempt fit_fn limit m ps of Inl e \<Rightarrow> True | Inr (fp, r') \<Rightarrow> \<not> exceeds r' (Num r)) =
        (case attempt fit_fn limit m ps of Inr (fp, Num r') \<Rightarrow> r' \<le> r | _ \<Rightarrow> True)"
    by (auto split: sum.splits score.splits)
  then show ?case using Cons by (simp add: c)
qed

lemma none_exceeds_NegInf:
  "none_exceeds fit_fn limit NegInf models \<longleftrightarrow>
     (\<forall>(m, ps) \<in> set models. \<forall>fp r. attempt fit_fn limit m ps \<noteq> Inr (fp, Num r))"
proof (induction models)
  case Nil
  then show ?case by simp
next
  case (Cons c models)
  obtain m ps where c: "c = (m, ps)" by (cases c)
  have "(case attempt fit_fn limit m ps of Inl e \<Rightarrow> True | Inr (fp, r') \<Rightarrow> \<not> exceeds r' NegInf) =
        (\<forall>fp r. attempt fit_fn limit m ps \<noteq> Inr (fp, Num r))"
    by (auto split: sum.splits dest: exceeds_is_Num)
  then show ?case using Cons by (simp add: c)
qed

lemma all_less_Cons_unscored:
  assumes "all_less fit_fn limit r pre"
    and "\<And>fp r'. attempt fit_fn limit m0 ps0 = Inr (fp, Num r') \<Longrightarrow> r' < r"
  shows "all_less fit_fn limit r ((m0, ps0) # pre)"
  using assms by (auto split: sum.splits score.splits)

lemma chosen_Cons:
  assumes "chosen fit_fn limit models fin b'"
    and low: "\<And>fp r' r. attempt fit_fn limit m0 ps0 = Inr (fp, Num r') \<Longrightarrow>
               exceeds (Num r) b' \<Longrightarrow> r' < r"
    and up: "\<And>r. exceeds (Num r) b' \<Longrightarrow> exceeds (Num r) b"
  shows "chosen fit_fn limit ((m0, ps0) # models) fin b"
proof -
  from assms(1) obtain pre m ps post fp r where
    n: "models = pre @ (m, ps) # post" "attempt fit_fn limit m ps = Inr (fp, Num r)"
      "exceeds (Num r) b'" "best_model_found fin = Some (m, Num r)" "best_params fin = Some fp"
      "best_r_squared fin = Num r" "all_less fit_fn limit r pre" "all_at_most fit_fn limit r post"
    unfolding chosen_def by blast
  have 1: "(m0, ps0) # models = ((m0, ps0) # pre) @ (m, ps) # post" using n(1) by simp
  have 2: "all_less fit_fn limit r ((m0, ps0) # pre)"
    using n(7) low [OF _ n(3)] by (rule all_less_Cons_unscored)
  have 3: "exceeds (Num r) b" using up [OF n(3)] .
  show ?thesis
    unfolding chosen_def using 1 2 3 n(2,4,5,6,8) by blast
qed

lemma chosen_here:
  assumes "attempt fit_fn limit m0 ps0 = Inr (fp0, Num r0)" and "exceeds (Num r0) b"
    and "best_model_found fin = Some (m0, Num r0)" and "best_params fin = Some fp0"
    and "best_r_squared fin = Num r0" and "all_at_most fit_fn limit r0 models"
  shows "chosen fit_fn limit ((m0, ps0) # models) fin b"
proof -
  have 1: "(m0, ps0) # models = [] @ (m0, ps0) # models" by simp
  have 2: "all_less fit_fn limit r0 []" by simp
  show ?thesis
    unfolding chosen_def using 1 2 assms by blast
qed

text \<open>The state of the loop after the candidates, from any state before them.\<close>

lemma select_loop_char:
  "failed_models (select_loop fit_fn limit models st) =
     failed_models st @ failures fit_fn limit models \<and>
   ((kept (select_loop fit_fn limit models st) st \<and>
     none_exceeds fit_fn limit (best_r_squared st) models) \<or>
    chosen fit_fn limit models (select_loop fit_fn limit models st) (best_r_squared st))"
proof (induction models arbitrary: st)
  case Nil
  then show ?case by (simp add: kept_def)
next
  case (Cons c models)
  obtain m0 ps0 where c: "c = (m0, ps0)" by (cases c)
  show ?case
  proof (cases "attempt fit_fn limit m0 ps0")
    case (Inl e)
    define st1 where "st1 = st\<lparr>failed_models := failed_models st @ [(m0, e)]\<rparr>"
    define fin where "fin = select_loop fit_fn limit models st1"
    have step: "select_loop fit_fn limit (c # models) st = fin"
      by (simp add: c Inl st1_def fin_def)
    have b: "best_r_squared st1 = best_r_squared st" by (simp add: st1_def)
    have k: "kept fin st1 \<Longrightarrow> kept fin st" by (simp add: kept_def st1_def)
    from Cons.IH [of st1] have
      F: "failed_models fin = failed_models st1 @ failures fit_fn limit models"
      and D: "(kept fin st1 \<and> none_exceeds fit_fn limit (best_r_squared st) models) \<or>
              chosen fit_fn limit models fin (best_r_squared st)"
      by (simp_all add: fin_def b)
    have F': "failed_models fin = failed_models st @ failures fit_fn limit (c # models)"
      using F by (simp add: c Inl st1_def)
    from D have "(kept fin st \<and> none_exceeds fit_fn limit (best_r_squared st) (c # models)) \<or>
              chosen fit_fn limit (c # models) fin (best_r_squared st)"
    proof
      assume "kept fin st1 \<and> none_exceeds fit_fn limit (best_r_squared st) models"
      then show ?thesis using k by (simp add: c Inl)
    next
      assume a: "chosen fit_fn limit models fin (best_r_squared st)"
      have "chosen fit_fn limit ((m0, ps0) # models) fin (best_r_squared st)"
        using a by (rule chosen_Cons) (simp_all add: Inl)
      then show ?thesis by (simp add: c)
    qed
    with F' show ?thesis unfolding step by blast
  next
    case (Inr res)
    obtain fp0 sc0 where res: "res = (fp0, sc0)" by (cases res)
    have att: "attempt fit_fn limit m0 ps0 = Inr (fp0, sc0)" by (simp add: Inr res)
    show ?thesis
    proof (cases "exceeds sc0 (best_r_squared st)")
      case True
      then obtain r0 where sc0: "sc0 = Num r0" using exceeds_is_Num by blast
      define st1 where "st1 = st\<lparr>best_r_squared := sc0, best_model_found := Some (m0, sc0),
                      best_params := Some fp0\<rparr>"
      define fin where "fin = select_loop fit_fn limit models st1"
      have step: "select_loop fit_fn limit (c # models) st = fin"
        by (simp add: c att True st1_def fin_def)
      have b: "best_r_squared st1 = Num r0" by (simp add: st1_def sc0)
      from Cons.IH [of st1] have
        F: "failed_models fin = failed_models st1 @ failures fit_fn limit models"
        and D: "(kept fin st1 \<and> none_exceeds fit_fn limit (Num r0) models) \<or>
                chosen fit_fn limit models fin (Num r0)"
        by (simp_all add: fin_def b)
      have F': "failed_models fin = failed_models st @ failures fit_fn limit (c # models)"
        using F by (simp add: c att st1_def)
      from D have "chosen fit_fn limit (c # models) fin (best_r_squared st)"
      proof
        assume a: "kept fin st1 \<and> none_exceeds fit_fn limit (Num r0) models"
        then have "best_model_found fin = Some (m0, Num r0)" "best_params fin = Some fp0"
          "best_r_squared fin = Num r0" "all_at_most fit_fn limit r0 models"
          by (simp_all add: kept_def st1_def sc0 none_exceeds_Num)
        from chosen_here [OF att [unfolded sc0] True [unfolded sc0] this]
        show ?thesis by (simp add: c)
      next
        assume a: "chosen fit_fn limit models fin (Num r0)"
        have "chosen fit_fn limit ((m0, ps0) # models) fin (best_r_squared st)"
          using a
        proof (rule chosen_Cons)
          fix fp r' r
          assume "attempt fit_fn limit m0 ps0 = Inr (fp, Num r')" "exceeds (Num r) (Num r0)"
          then show "r' < r" using att sc0 by simp
        next
          fix r
          assume "exceeds (Num r) (Num r0)"
          then show "exceeds (Num r) (best_r_squared st)"
            using exceeds_trans [OF True [unfolded sc0]] by simp
        qed
        then show ?thesis by (simp add: c)
      qed
      with F' show ?thesis unfolding step by blast
    next
      case False
      define fin where "fin = select_loop fit_fn limit models st"
      have step: "select_loop fit_fn limit (c # models) st = fin"
        by (simp add: c att False fin_def)
      from Cons.IH [of st] have
        F: "failed_models fin = failed_models st @ failures fit_fn limit models"
        and D: "(kept fin st \<and> none_exceeds fit_fn limit (best_r_squared st) models) \<or>
                chosen fit_fn limit models fin (best_r_squared st)"
        by (simp_all add: fin_def)
      have F': "failed_models fin = failed_models st @ failures fit_fn limit (c # models)"
        using F by (simp add: c att)
      from D have "(kept fin st \<and> none_exceeds fit_fn limit (best_r_squared st) (c # models)) \<or>
              chosen fit_fn limit (c # models) fin (best_r_squared st)"
      proof
        assume "kept fin st \<and> none_exceeds fit_fn limit (best_r_squared st) models"
        then show ?thesis using False by (simp add: c att)
      next
        assume a: "chosen fit_fn limit models fin (best_r_squared st)"
        have "chosen fit_fn limit ((m0, ps0) # models) fin (best_r_squared st)"
          using a
        proof (rule chosen_Cons)
          fix fp r' r
          assume "attempt fit_fn limit m0 ps0 = Inr (fp, Num r')"
            "exceeds (Num r) (best_r_squared st)"
          then show "r' < r" using att False not_exceeds_less by auto
        qed
        then show ?thesis by (simp add: c)
      qed
      with F' show ?thesis unfolding step by blast
    qed
  qed
qed

lemma best_model_fields:
  "winner (best_model fit_fn limit models) =
     best_model_found (select_loop fit_fn limit models
       \<lparr>best_r_squared = NegInf, best_model_found = None, best_params = None,
        failed_models = []\<rparr>)"
  "winner_params (best_model fit_fn limit models) =
     best_params (select_loop fit_fn limit models
       \<lparr>best_r_squared = NegInf, best_model_found = None, best_params = None,
        failed_models = []\<rparr>)"
  "logged_failures (best_model fit_fn limit models) =
     failed_models (select_loop fit_fn limit models
       \<lparr>best_r_squared = NegInf, best_model_found = None, best_params = None,
        failed_models = []\<rparr>)"
  by (simp_all add: best_model_def Let_def)

lemma fit_constant_data_resistor:
  "fit_constant_data (ElementNode (Resistor ''1'')) [(''R1'', Scalar 5)] =
     Inr ([(''R1'', Scalar 5)], NegInf)"
  by (simp add: fit_constant_data_def fit_def flatten_def sorted_keys_def getitem_def
      flatten_step_def returns_guess_def model_wrapper_def Resistor_impedance_def rounded_def
      round_complex_def r_squared_def power2_eq_square)

text \<open>
  Claim C6 as stated fails when a fit succeeds with the score \<^verbatim>\<open>-inf\<close>, as it does on
  observations that are all equal: the only candidate raises nothing and is not recorded
  as failed, yet \<^verbatim>\<open>-inf > -inf\<close> is false, no winner is returned and the warning that all
  models failed is issued.
\<close>

theorem best_model_ignores_minus_infinity:
  "attempt fit_constant_data 10 ''R1'' [(''R1'', Scalar 5)] =
     Inr ([(''R1'', Scalar 5)], NegInf) \<and>
   best_model fit_constant_data 10 [(''R1'', [(''R1'', Scalar 5)])] =
     \<lparr>winner = None, winner_params = None, logged_failures = [],
      all_failed_warning = Some []\<rparr>"
proof -
  have p: "parse_circuit 10 ''R1'' = Inr (ElementNode (Resistor ''1''))"
    by code_simp
  have a: "attempt fit_constant_data 10 ''R1'' [(''R1'', Scalar 5)] =
     Inr ([(''R1'', Scalar 5)], NegInf)"
    by (simp add: attempt_def p fit_constant_data_resistor)
  show ?thesis
    by (simp add: a best_model_def)
qed

text \<open>
  Claim C6, amended. \<open>best_model\<close> is a total function of the candidate list: whatever a
  candidate's parse or fit raises is caught, and the candidate is recorded with its
  exception, in order, while the loop goes on with the remaining candidates. The
  returned winner is the first candidate with the greatest score among the candidates
  that succeeded with a number as score: a winner \<open>(m, s)\<close> has a number \<open>r\<close> as score
  \<open>s\<close> and is returned with its fitted parameters, every candidate before it that
  succeeded with a number scored strictly less than \<open>r\<close>, and every such candidate after
  it scored at most \<open>r\<close>. A candidate whose fit returns \<^verbatim>\<open>-inf\<close> or \<^verbatim>\<open>nan\<close> is never the
  winner, and no winner is returned exactly when no candidate succeeded with a number.
\<close>

theorem best_model_selects_first_greatest:
  "logged_failures (best_model fit_fn limit models) = failures fit_fn limit models \<and>
   (winner (best_model fit_fn limit models) = None \<longleftrightarrow>
      (\<forall>(m, ps) \<in> set models. \<forall>fp r. attempt fit_fn limit m ps \<noteq> Inr (fp, Num r))) \<and>
   (\<forall>m s. winner (best_model fit_fn limit models) = Some (m, s) \<longrightarrow>
      (\<exists>r pre ps post fp.
         s = Num r \<and> models = pre @ (m, ps) # post \<and>
         attempt fit_fn limit m ps = Inr (fp, Num r) \<and>
         winner_params (best_model fit_fn limit models) = Some fp \<and>
         all_less fit_fn limit r pre \<and> all_at_most fit_fn limit r post))"
proof -
  define st where "st = \<lparr>best_r_squared = NegInf, best_model_found = None,
                  best_params = None, failed_models = []\<rparr>"
  define fin where "fin = select_loop fit_fn limit models st"
  have bm: "winner (best_model fit_fn limit models) = best_model_found fin"
    "winner_params (best_model fit_fn limit models) = best_params fin"
    "logged_failures (best_model fit_fn limit models) = failed_models fin"
    by (simp_all add: best_model_fields fin_def st_def)
  from select_loop_char [of fit_fn limit models st] have
    F: "failed_models fin = failures fit_fn limit models"
    and D: "(kept fin st \<and> none_exceeds fit_fn limit NegInf models) \<or>
            chosen fit_fn limit models fin NegInf"
    by (simp_all add: fin_def st_def)
  from D show ?thesis
  proof
    assume a: "kept fin st \<and> none_exceeds fit_fn limit NegInf models"
    then have "best_model_found fin = None" by (simp add: kept_def st_def)
    moreover from a have
      "\<forall>(m, ps) \<in> set models. \<forall>fp r. attempt fit_fn limit m ps \<noteq> Inr (fp, Num r)"
      by (simp add: none_exceeds_NegInf)
    ultimately show ?thesis using F by (simp add: bm)
  next
    assume "chosen fit_fn limit models fin NegInf"
    then obtain pre m ps post fp r where
      n: "models = pre @ (m, ps) # post" "attempt fit_fn limit m ps = Inr (fp, Num r)"
        "best_model_found fin = Some (m, Num r)" "best_params fin = Some fp"
        "all_less fit_fn limit r pre" "all_at_most fit_fn limit r post"
      unfolding chosen_def by blast
    have "\<not> (\<forall>(m, ps) \<in> set models. \<forall>fp r. attempt fit_fn limit m ps \<noteq> Inr (fp, Num r))"
      using n(1,2) by auto
    moreover have "\<exists>r' pre ps post fp.
         Num r = Num r' \<and> models = pre @ (m, ps) # post \<and>
         attempt fit_fn limit m ps = Inr (fp, Num r') \<and>
         best_params fin = Some fp \<and>
         all_less fit_fn limit r' pre \<and> all_at_most fit_fn limit r' post"
      using n by blast
    ultimately show ?thesis using F n(3) by (simp add: bm)
  qed
qed

theorem best_model_selects_first_greatest_witness:
  "winner (best_model sample_fit 5
      [(''X1'', []), (''R1'', []), (''R1-C1'', []), (''R2|C2'', []), (''R2-C2'', [])]) =
     Some (''R1-C1'', Num (9 / 10)) \<and>
   logged_failures (best_model sample_fit 5
      [(''X1'', []), (''R1'', []), (''R1-C1'', []), (''R2|C2'', []), (''R2-C2'', [])]) =
     [(''X1'', UnknownElementType CHR ''X''), (''R2|C2'', OptimizerError ''no convergence'')] \<and>
   (\<exists>pre ps post fp.
      [(''X1'', []), (''R1'', []), (''R1-C1'', []), (''R2|C2'', []), (''R2-C2'', [])] =
        pre @ (''R1-C1'', ps) # post \<and>
      attempt sample_fit 5 ''R1-C1'' ps = Inr (fp, Num (9 / 10)) \<and>
      all_less sample_fit 5 (9 / 10) pre \<and> all_at_most sample_fit 5 (9 / 10) post)"
proof -
  let ?M = "[(''X1'', []), (''R1'', []), (''R1-C1'', []), (''R2|C2'', []), (''R2-C2'', [])]"
  have w: "winner (best_model sample_fit 5 ?M) = Some (''R1-C1'', Num (9 / 10))"
    by code_simp
  have f: "failures sample_fit 5 ?M =
      [(''X1'', UnknownElementType CHR ''X''), (''R2|C2'', OptimizerError ''no convergence'')]"
    by code_simp
  have l: "logged_failures (best_model sample_fit 5 ?M) = failures sample_fit 5 ?M"
    and d: "\<forall>m s. winner (best_model sample_fit 5 ?M) = Some (m, s) \<longrightarrow>
      (\<exists>r pre ps post fp.
         s = Num r \<and> ?M = pre @ (m, ps) # post \<and>
         attempt sample_fit 5 m ps = Inr (fp, Num r) \<and>
         winner_params (best_model sample_fit 5 ?M) = Some fp \<and>
         all_less sample_fit 5 r pre \<and> all_at_most sample_fit 5 r post)"
    using best_model_selects_first_greatest [of sample_fit 5 ?M] by blast+
  from d w obtain r pre ps post fp where
    n: "Num (9 / 10) = Num r" "?M = pre @ (''R1-C1'', ps) # post"
      "attempt sample_fit 5 ''R1-C1'' ps = Inr (fp, Num r)"
      "all_less sample_fit 5 r pre" "all_at_most sample_fit 5 r post"
    by blast
  from n(1) have r: "r = 9 / 10" by (simp only: score.inject)
  have "\<exists>pre ps post fp.
         ?M = pre @ (''R1-C1'', ps) # post \<and>
         attempt sample_fit 5 ''R1-C1'' ps = Inr (fp, Num (9 / 10)) \<and>
         all_less sample_fit 5 (9 / 10) pre \<and> all_at_most sample_fit 5 (9 / 10) post"
    using n(2-5) unfolding r by blast
  with w l f show ?thesis by presburger
qed

text \<open>
  Claim C10. For an empty candidate list \<open>best_model\<close> returns no winner and no
  parameters, and it issues the warning that all models failed, with an empty list of
  recorded failures.
\<close>

theorem best_model_no_candidates:
  "best_model fit_fn limit [] =
     \<lparr>winner = None, winner_params = None, logged_failures = [],
      all_failed_warning = Some []\<rparr>"
  by (simp add: best_model_def)

end
